theory Spec2Isabelle
  imports Complex_Main "HOL-Library.Word" "HOL-Library.Sublist" "HOL-Library.Multiset"
begin

unbundle bit_operations_syntax

chapter \<open>Chinese poker: ranks, play and scorers\<close>

text \<open>
  The development follows the Go sources: package poker (cards and the table of hand
  ranks, \<^verbatim>\<open>eval.go\<close>), the play engine \<^verbatim>\<open>Play\<close>, and the scorers and roll-outs of
  \<^verbatim>\<open>evaluator.go\<close>.

  Conventions.
  \<^item> A rank (\<^verbatim>\<open>int16\<close>) is represented by its signed value, an \<^typ>\<open>int\<close>: the functions
    modelled here compare ranks and use them as indices, they do no arithmetic on them.
  \<^item> A \<^verbatim>\<open>float64\<close> is represented by the real number it denotes. Rounding of
    arithmetic, infinities and NaN are not modelled; the rounding of a decimal that is
    read from a file is.
  \<^item> A function that can fail to return (a panic, \<^verbatim>\<open>log.Fatalf\<close>, a loop that never
    ends) has an \<open>option\<close> or a sum type as its result.
\<close>

section \<open>The program\<close>

subsection \<open>The 2-4 score of two played hands (\<^verbatim>\<open>b2i\<close>, \<^verbatim>\<open>cmp\<close>)\<close>

type_synonym int16 = int

definition b2i :: "bool \<Rightarrow> int" where
  "b2i b = (if b then 1 else 0)"

definition cmp :: "int16 \<Rightarrow> int16 \<Rightarrow> int16 \<Rightarrow> int16 \<Rightarrow> int16 \<Rightarrow> int16 \<Rightarrow> int" where
  "cmp a0 b0 a1 b1 a2 b2 =
     (let wins = b2i (a0 > b0) + b2i (a1 > b1) + b2i (a2 > b2);
          losses = b2i (b0 > a0) + b2i (b1 > a1) + b2i (b2 > a2);
          bonus = b2i (wins > losses) - b2i (losses > wins)
      in wins - losses + bonus)"

subsection \<open>Sampled scorers (\<^verbatim>\<open>SampledEvaluator\<close>, \<^verbatim>\<open>evaluateHand\<close>)\<close>

text \<open>\<^verbatim>\<open>wins [3][]float64\<close> is an array of exactly three slices: a triple of lists.\<close>

type_synonym wins3 = "real list \<times> real list \<times> real list"

record SampledEvaluator =
  se_wins :: wins3

text \<open>Reading a slice or an array at an index: out of range the Go code panics.\<close>

definition index_opt :: "'a list \<Rightarrow> int \<Rightarrow> 'a option" where
  "index_opt xs i = (if 0 \<le> i \<and> i < int (length xs) then Some (xs ! nat i) else None)"

text \<open>
  The body of \<^verbatim>\<open>evaluateHand\<close> after its three table reads, and the function itself
  (\<open>None\<close>: a rank is outside its win array).
\<close>

definition score_expr :: "real \<Rightarrow> real \<Rightarrow> real \<Rightarrow> real" where
  "score_expr pf pm pb =
     (let qf = 1 - pf; qm = 1 - pm; qb = 1 - pb;
          pbon = pf * pm + pf * pb + pm * pb - 2 * pf * pm * pb;
          qbon = qf * qm + qf * qb + qm * qb - 2 * qf * qm * qb
      in pf + pm + pb - qf - qm - qb + pbon - qbon)"

definition evaluateHand :: "SampledEvaluator \<Rightarrow> int16 \<Rightarrow> int16 \<Rightarrow> int16 \<Rightarrow> real option" where
  "evaluateHand se f m b =
     (case se_wins se of (w0, w1, w2) \<Rightarrow>
        (case index_opt w0 f of None \<Rightarrow> None | Some pf \<Rightarrow>
        (case index_opt w1 m of None \<Rightarrow> None | Some pm \<Rightarrow>
        (case index_opt w2 b of None \<Rightarrow> None | Some pb \<Rightarrow>
           Some (score_expr pf pm pb)))))"

subsection \<open>Roll-out evaluators and the constructor of sampled scorers\<close>

text \<open>
  The fields \<^verbatim>\<open>Opponent\<close> and \<^verbatim>\<open>played\<close> of a roll-out evaluator are not read by the
  constructor; \<^verbatim>\<open>played\<close> is kept, the opponent is left out. The fields \<^verbatim>\<open>N\<close>,
  \<^verbatim>\<open>played\<close> and \<^verbatim>\<open>wins\<close> carry the prefix \<open>re_\<close>.
\<close>

record RolloutEvaluator =
  PreRollout :: bool
  Separable :: bool
  re_N :: int
  re_played :: "(int16 \<times> int16 \<times> int16) list"
  re_wins :: wins3

text \<open>\<^verbatim>\<open>len\<close> of a Go array is its declared size, whatever the slices in it hold.\<close>

definition len_wins :: "wins3 \<Rightarrow> nat" where
  "len_wins w = 3"

datatype ctor_error = NotSeparable | NotPreRolledOut | NotPrepared

definition NewSampledEvaluatorFromRollout :: "RolloutEvaluator \<Rightarrow> ctor_error + SampledEvaluator" where
  "NewSampledEvaluatorFromRollout re =
     (if \<not> Separable re then Inl NotSeparable
      else if \<not> PreRollout re then Inl NotPreRolledOut
      else if len_wins (re_wins re) = 0 then Inl NotPrepared
      else Inr \<lparr>se_wins = (case re_wins re of (w0, w1, w2) \<Rightarrow> ([] @ w0, [] @ w1, [] @ w2))\<rparr>)"

subsection \<open>The win arrays built by \<^verbatim>\<open>rollout\<close>\<close>

text \<open>
  \<^verbatim>\<open>rollout\<close> first samples \<open>N\<close> opponent hands with a pool of workers and a random
  number generator; that part is not modelled. What follows it is sequential: from the
  sampled triples \<^verbatim>\<open>played\<close> (one per sample, \<^verbatim>\<open>make([][3]int16, N)\<close>) the three win
  arrays are made, tallied and accumulated. \<open>None\<close>: a sampled rank is outside the arrays.
\<close>

definition ScoreMax :: int where
  "ScoreMax = 6785"

definition bump :: "real list \<Rightarrow> int16 \<Rightarrow> real list option" where
  "bump w r = (if 0 \<le> r \<and> r < int (length w) then Some (w[nat r := w ! nat r + 1]) else None)"

fun tally :: "(int16 \<times> int16 \<times> int16) list \<Rightarrow> wins3 \<Rightarrow> wins3 option" where
  "tally [] w = Some w"
| "tally ((s0, s1, s2) # ps) (w0, w1, w2) =
     (case bump w0 s0 of None \<Rightarrow> None | Some w0' \<Rightarrow>
     (case bump w1 s1 of None \<Rightarrow> None | Some w1' \<Rightarrow>
     (case bump w2 s2 of None \<Rightarrow> None | Some w2' \<Rightarrow>
        tally ps (w0', w1', w2'))))"

fun cumulate :: "int \<Rightarrow> real \<Rightarrow> real list \<Rightarrow> real list" where
  "cumulate n t [] = []"
| "cumulate n t (x # xs) = (t + x) / real_of_int n # cumulate n (t + x) xs"

definition rollout_wins :: "(int16 \<times> int16 \<times> int16) list \<Rightarrow> int \<Rightarrow> wins3 option" where
  "rollout_wins played n =
     (let z = replicate (nat (ScoreMax + 1)) 0 in
      case tally played (z, z, z) of None \<Rightarrow> None
      | Some (w0, w1, w2) \<Rightarrow> Some (cumulate n 0 w0, cumulate n 0 w1, cumulate n 0 w2))"

subsection \<open>Saving and loading a sampled scorer (\<^verbatim>\<open>Marshal\<close>, \<^verbatim>\<open>UnmarshalSampledEvaluator\<close>)\<close>

text \<open>
  A \<^verbatim>\<open>float64\<close> read from a decimal is the nearest value of the format, a tie going to
  the even significand: 53 bits, the exponent of the leading bit between \<open>-1022\<close> and
  \<open>1023\<close>. \<open>float64 x\<close> is that value for the real \<open>x\<close>; at \<open>2\<^sup>1\<^sup>0\<^sup>2\<^sup>4\<close> and beyond there is none.
\<close>

definition pow2 :: "int \<Rightarrow> real" where
  "pow2 e = (if 0 \<le> e then 2 ^ nat e else 1 / 2 ^ nat (- e))"

function expo_from :: "real \<Rightarrow> int \<Rightarrow> int" where
  "expo_from x e = (if e \<le> - 1022 \<or> pow2 e \<le> \<bar>x\<bar> then e else expo_from x (e - 1))"
  by pat_completeness auto
termination
  by (relation "measure (\<lambda>(x, e). nat (e + 1022))") auto

declare expo_from.simps [simp del]

definition float64_expo :: "real \<Rightarrow> int" where
  "float64_expo x = expo_from x 1023"

definition round_even :: "real \<Rightarrow> int" where
  "round_even r =
     (let f = \<lfloor>r\<rfloor>
      in if r - real_of_int f < 1 / 2 then f
         else if r - real_of_int f > 1 / 2 then f + 1
         else if even f then f else f + 1)"

definition float64 :: "real \<Rightarrow> real" where
  "float64 x = (let u = pow2 (float64_expo x - 52) in real_of_int (round_even (x / u)) * u)"

text \<open>
  The two functions read and write through \<^verbatim>\<open>fmt.Fscanf\<close> and \<^verbatim>\<open>fmt.Fprintf\<close>, which
  are not part of the repository. The model covers the texts made of the items below,
  each followed by one blank:

    \<^item> \<open>IntTok n\<close>: the decimal digits of the integer \<open>n\<close>, as \<^verbatim>\<open>%d\<close> writes them;
    \<^item> \<open>FloatTok k\<close>: the decimal \<open>k / 10\<^sup>6\<close> with its six digits after the point, as \<^verbatim>\<open>%f\<close>
      writes it;
    \<^item> \<open>FracTok j\<close>: a point and the six digits of \<open>j\<close>, which is what is left of a
      \<open>FloatTok\<close> once \<^verbatim>\<open>%d\<close> has taken the digits before the point;
    \<^item> \<open>WordTok\<close>: a word of letters that begins no number, such as \<^verbatim>\<open>abc\<close>.

  Other texts (a line break between items, \<^verbatim>\<open>NaN\<close>, \<^verbatim>\<open>Inf\<close>, digits followed by letters,
  exponents) are outside the model.
\<close>

datatype token = IntTok int | FloatTok int | FracTok int | WordTok

datatype scan_error = EndOfInput | NotANumber | OutOfRange

datatype 'a outcome = Ok 'a | Err scan_error | Panic

text \<open>\<^verbatim>\<open>int\<close> has 64 bits.\<close>

definition in_int :: "int \<Rightarrow> bool" where
  "in_int n \<longleftrightarrow> - (2 ^ 63) \<le> n \<and> n < 2 ^ 63"

text \<open>
  \<^verbatim>\<open>Fscanf(r, "%d", &length)\<close>. It reads a sign and digits and stops at the first other
  character. That character is kept for the next call when the reader can take a
  character back (\<open>unread\<close>, as a \<^verbatim>\<open>bufio.Reader\<close> can); a reader that cannot (a file)
  loses it.
\<close>

fun scan_d :: "bool \<Rightarrow> token list \<Rightarrow> scan_error + int \<times> token list" where
  "scan_d unread [] = Inl EndOfInput"
| "scan_d unread (IntTok n # ts) = (if in_int n then Inr (n, ts) else Inl OutOfRange)"
| "scan_d unread (FloatTok k # ts) =
     (let n = sgn k * (\<bar>k\<bar> div 1000000); j = \<bar>k\<bar> mod 1000000
      in if in_int n then Inr (n, (if unread then FracTok j else IntTok j) # ts)
         else Inl OutOfRange)"
| "scan_d unread (FracTok j # ts) = Inl NotANumber"
| "scan_d unread (WordTok # ts) = Inl NotANumber"

text \<open>\<^verbatim>\<open>Fscanf(r, "%f", &x)\<close>: the decimal read is rounded to a \<^verbatim>\<open>float64\<close>.\<close>

definition parse_float :: "real \<Rightarrow> token list \<Rightarrow> scan_error + real \<times> token list" where
  "parse_float d ts = (if \<bar>float64 d\<bar> < pow2 1024 then Inr (float64 d, ts) else Inl OutOfRange)"

fun scan_f :: "token list \<Rightarrow> scan_error + real \<times> token list" where
  "scan_f [] = Inl EndOfInput"
| "scan_f (IntTok n # ts) = parse_float (real_of_int n) ts"
| "scan_f (FloatTok k # ts) = parse_float (real_of_int k / 1000000) ts"
| "scan_f (FracTok j # ts) = parse_float (real_of_int j / 1000000) ts"
| "scan_f (WordTok # ts) = Inl NotANumber"

text \<open>The loop \<^verbatim>\<open>for j := range se.wins[i]\<close> over the \<open>n\<close> entries of the new array.\<close>

fun read_floats :: "nat \<Rightarrow> token list \<Rightarrow> scan_error + real list \<times> token list" where
  "read_floats 0 ts = Inr ([], ts)"
| "read_floats (Suc n) ts =
     (case scan_f ts of Inl e \<Rightarrow> Inl e
      | Inr (x, ts') \<Rightarrow>
         (case read_floats n ts' of Inl e \<Rightarrow> Inl e
          | Inr (xs, ts'') \<Rightarrow> Inr (x # xs, ts'')))"

text \<open>
  One round of the loop over \<open>i\<close>. \<^verbatim>\<open>make([]float64, length)\<close> stops the program when
  \<open>length\<close> is negative or more than the run-time system gives; \<open>room\<close> is the longest
  array it gives (never more than \<open>2\<^sup>4\<^sup>5\<close> entries of eight bytes).
\<close>

definition read_lane :: "int \<Rightarrow> bool \<Rightarrow> token list \<Rightarrow> (real list \<times> token list) outcome" where
  "read_lane room unread ts =
     (case scan_d unread ts of Inl e \<Rightarrow> Err e
      | Inr (len, ts') \<Rightarrow>
          if len < 0 \<or> room < len then Panic
          else (case read_floats (nat len) ts' of Inl e \<Rightarrow> Err e | Inr r \<Rightarrow> Ok r))"

definition UnmarshalSampledEvaluator :: "int \<Rightarrow> bool \<Rightarrow> token list \<Rightarrow> SampledEvaluator outcome" where
  "UnmarshalSampledEvaluator room unread r =
     (case read_lane room unread r of Err e \<Rightarrow> Err e | Panic \<Rightarrow> Panic
      | Ok (w0, r1) \<Rightarrow>
     (case read_lane room unread r1 of Err e \<Rightarrow> Err e | Panic \<Rightarrow> Panic
      | Ok (w1, r2) \<Rightarrow>
     (case read_lane room unread r2 of Err e \<Rightarrow> Err e | Panic \<Rightarrow> Panic
      | Ok (w2, r3) \<Rightarrow> Ok \<lparr>se_wins = (w0, w1, w2)\<rparr>)))"

text \<open>
  \<^verbatim>\<open>%f\<close> writes six digits after the point: the multiple of \<open>10\<^sup>-\<^sup>6\<close> nearest to the value,
  a tie going to the even last digit. \<open>fmt_f x\<close> is that multiple, counted in millionths.
  The writer itself is taken not to fail.
\<close>

definition fmt_f :: "real \<Rightarrow> int" where
  "fmt_f x = round_even (x * 1000000)"

definition lane_tokens :: "real list \<Rightarrow> token list" where
  "lane_tokens xs = IntTok (int (length xs)) # map (\<lambda>c. FloatTok (fmt_f c)) xs"

definition Marshal :: "SampledEvaluator \<Rightarrow> token list" where
  "Marshal se = (case se_wins se of (w0, w1, w2) \<Rightarrow> lane_tokens w0 @ lane_tokens w1 @ lane_tokens w2)"

subsection \<open>Cards and the table of ranks (\<^verbatim>\<open>hash\<close>, \<^verbatim>\<open>Eval3\<close>, \<^verbatim>\<open>Eval5\<close>)\<close>

text \<open>
  A card is a \<^verbatim>\<open>uint16\<close>: the low six bits hold the prime of its rank, bits 6 to 9 its suit.
  The table \<^verbatim>\<open>evalTable [32768]evalTableEntry\<close> is a global that \<^verbatim>\<open>init\<close> fills once;
  here it is an argument of every function that reads it. An index into it is always
  masked to 15 bits, so the array is a function of the index.
\<close>

type_synonym Card = "16 word"
type_synonym int32 = "32 word"

record evalTableEntry =
  key :: int32
  val :: int16

type_synonym evalTable = "nat \<Rightarrow> evalTableEntry"

definition evalMask :: int32 where
  "evalMask = 0x7fff"

text \<open>On \<^verbatim>\<open>int32\<close>, \<^verbatim>\<open>>>\<close> is the arithmetic shift and \<^verbatim>\<open><<\<close> drops the bits shifted out.\<close>

definition hash :: "int32 \<Rightarrow> int32" where
  "hash k = signed_drop_bit 4 k XOR push_bit 6 k"

text \<open>
  The loop that \<^verbatim>\<open>Eval\<close>, \<^verbatim>\<open>Eval3\<close> and \<^verbatim>\<open>Eval5\<close> share: probe until the entry holds
  the key. It has no other exit: \<open>None\<close> is the loop that never ends.
\<close>

partial_function (option) probe :: "evalTable \<Rightarrow> int32 \<Rightarrow> int32 \<Rightarrow> int16 option" where
  "probe tbl ky k =
     (if key (tbl (unat (k AND evalMask))) = ky then Some (val (tbl (unat (k AND evalMask))))
      else probe tbl ky (hash k))"

declare probe.simps [code]

text \<open>The arguments are arrays of five and of three cards; no other length has a rank.\<close>

fun Eval5 :: "evalTable \<Rightarrow> Card list \<Rightarrow> int16 option" where
  "Eval5 tbl [c0, c1, c2, c3, c4] =
     (let ky = ucast (c0 AND 0x3f) * ucast (c1 AND 0x3f) * ucast (c2 AND 0x3f)
                * ucast (c3 AND 0x3f) * ucast (c4 AND 0x3f);
          ky = (if c0 AND c1 AND c2 AND c3 AND c4 AND 0x3c0 \<noteq> 0 then - ky else ky)
      in probe tbl ky ky)"
| "Eval5 tbl cs = None"

fun Eval3 :: "evalTable \<Rightarrow> Card list \<Rightarrow> int16 option" where
  "Eval3 tbl [c0, c1, c2] =
     (let ky = ucast (c0 AND 0x3f) * ucast (c1 AND 0x3f) * ucast (c2 AND 0x3f)
      in probe tbl ky ky)"
| "Eval3 tbl cs = None"

subsection \<open>The play engine (\<^verbatim>\<open>next3\<close>, \<^verbatim>\<open>next4\<close>, \<^verbatim>\<open>Play\<close>)\<close>

record Hand =
  Front :: "Card list"
  Middle :: "Card list"
  Back :: "Card list"

text \<open>The zero value \<^verbatim>\<open>Hand{}\<close>.\<close>

definition Hand_zero :: Hand where
  "Hand_zero = \<lparr>Front = replicate 3 0, Middle = replicate 5 0, Back = replicate 5 0\<rparr>"

record EvalStats =
  Hands :: int
  StrongFront :: int
  BackEqualsMiddle :: int

text \<open>
  A hand evaluator gives, for the thirteen cards, the function that scores three lane
  ranks. (An evaluator that rolls out at random is not a function of the cards; the
  model covers the evaluators that are.)
\<close>

type_synonym scorer = "int16 \<Rightarrow> int16 \<Rightarrow> int16 \<Rightarrow> real"
type_synonym HandEvaluator = "Card list \<Rightarrow> scorer"

text \<open>
  The index arrays \<^verbatim>\<open>[3]int\<close> and \<^verbatim>\<open>[5]int\<close> are lists; the functions return the updated
  array with their result.
\<close>

fun next3 :: "int list \<Rightarrow> int list \<times> bool" where
  "next3 [a, b, c] =
     (if a + 1 \<noteq> b then ([a + 1, b, c], True)
      else if b + 1 \<noteq> c then ([0, b + 1, c], True)
      else ([0, 1, c + 1], c + 1 < 13))"
| "next3 ix = (ix, False)"

fun next4 :: "int list \<Rightarrow> int list \<times> bool" where
  "next4 [z, a, b, c, d] =
     (if a + 1 \<noteq> b then ([z, a + 1, b, c, d], True)
      else if b + 1 \<noteq> c then ([z, 0, b + 1, c, d], True)
      else if c + 1 \<noteq> d then ([z, 0, 1, c + 1, d], True)
      else ([z, 0, 1, 2, d + 1], d + 1 < 9))"
| "next4 ix = (ix, False)"

text \<open>
  \<^verbatim>\<open>for nxt(&ix) { body }\<close>: the loop goes on as long as \<open>nxt\<close> says so. \<open>None\<close>: the
  loop never ends, or its body does not return.
\<close>

partial_function (option) for_next ::
  "(int list \<Rightarrow> int list \<times> bool) \<Rightarrow> (int list \<Rightarrow> 's \<Rightarrow> 's option) \<Rightarrow> int list \<Rightarrow> 's \<Rightarrow> 's option" where
  "for_next nxt body ix s =
     (case nxt ix of (ix', ok) \<Rightarrow>
        if ok then Option.bind (body ix' s) (for_next nxt body ix') else Some s)"

declare for_next.simps [code]

text \<open>
  The loop over \<open>i\<close> that deals the cards outside the front to back and middle. Its state
  is \<open>(f, b, back, middle)\<close>. \<open>None\<close>: an index is out of range (a panic).
\<close>

fun deal_step :: "Card list \<Rightarrow> int list \<Rightarrow> int list \<Rightarrow> int \<Rightarrow> int \<times> int \<times> Card list \<times> Card list
    \<Rightarrow> (int \<times> int \<times> Card list \<times> Card list) option" where
  "deal_step c fIdx bIdx i (f, b, back, middle) =
     (if f < 3 \<and> fIdx ! nat f = i then Some (f + 1, b, back, middle)
      else if b < 5 \<and> i = bIdx ! nat b + f + 1 then
        (case index_opt c i of None \<Rightarrow> None
         | Some ci \<Rightarrow> Some (f, b + 1, back[nat b := ci], middle))
      else
        (case index_opt c i of None \<Rightarrow> None
         | Some ci \<Rightarrow>
            if i - f - b < 5 then Some (f, b, back, middle[nat (i - f - b) := ci]) else None))"

fun deal_loop :: "Card list \<Rightarrow> int list \<Rightarrow> int list \<Rightarrow> int list \<Rightarrow> int \<times> int \<times> Card list \<times> Card list
    \<Rightarrow> (int \<times> int \<times> Card list \<times> Card list) option" where
  "deal_loop c fIdx bIdx [] s = Some s"
| "deal_loop c fIdx bIdx (i # is) s =
     Option.bind (deal_step c fIdx bIdx i s) (deal_loop c fIdx bIdx is)"

definition deal :: "Card list \<Rightarrow> int list \<Rightarrow> int list \<Rightarrow> (Card list \<times> Card list) option" where
  "deal c fIdx bIdx =
     map_option (\<lambda>(f, b, back, middle). (back, middle))
       (deal_loop c fIdx bIdx [0, 1, 2, 3, 4, 5, 6, 7, 8, 9, 10, 11, 12]
          (0, 0, replicate 5 0, replicate 5 0))"

text \<open>The entries of \<^verbatim>\<open>maxima\<close>: front rank, smaller and larger of the two other ranks.\<close>

type_synonym triple = "int16 \<times> int16 \<times> int16"

definition ge3 :: "triple \<Rightarrow> triple \<Rightarrow> bool" where
  "ge3 m t = (case m of (m0, m1, m2) \<Rightarrow> case t of (t0, t1, t2) \<Rightarrow> m0 \<ge> t0 \<and> m1 \<ge> t1 \<and> m2 \<ge> t2)"

definition le3 :: "triple \<Rightarrow> triple \<Rightarrow> bool" where
  "le3 m t = (case m of (m0, m1, m2) \<Rightarrow> case t of (t0, t1, t2) \<Rightarrow> m0 \<le> t0 \<and> m1 \<le> t1 \<and> m2 \<le> t2)"

text \<open>
  The loop over \<^verbatim>\<open>maxima\<close>: it returns \<^verbatim>\<open>dominated\<close> and the slice as the loop leaves it.
  An entry below the new triple is overwritten by the last entry and the slice is cut by
  one; the index moves on all the same.
\<close>

function scan :: "triple \<Rightarrow> nat \<Rightarrow> triple list \<Rightarrow> bool \<times> triple list" where
  "scan t i mx =
     (if i < length mx then
        if ge3 (mx ! i) t then (True, mx)
        else if le3 (mx ! i) t then scan t (i + 1) (butlast (mx[i := last mx]))
        else scan t (i + 1) mx
      else (False, mx))"
  by pat_completeness auto
termination
  by (relation "measure (\<lambda>(t, i, mx). length mx - i)") auto

declare scan.simps [simp del]

text \<open>
  The state of the two loops of \<^verbatim>\<open>Play\<close>. The field \<open>scored\<close> is not in the program: it
  is a history of the proof, the hands that reached the evaluator with their scores, in
  order. Nothing reads it.
\<close>

record play_state =
  maxima :: "triple list"
  best :: Hand
  bestEV :: real
  stats :: EvalStats
  scored :: "(Hand \<times> real) list"

text \<open>\<^verbatim>\<open>maxima\<close> is made with capacity 128; cutting and appending within it keep it.\<close>

definition cap_maxima :: nat where
  "cap_maxima = 128"

text \<open>From the call of the evaluator to the end of the loop body.\<close>

definition score_hand :: "scorer \<Rightarrow> Card list \<Rightarrow> Card list \<Rightarrow> Card list \<Rightarrow> int16 \<Rightarrow> int16 \<Rightarrow> int16
    \<Rightarrow> play_state \<Rightarrow> play_state" where
  "score_hand evaluator front back middle ef em eb st =
     (let ev = (if em > eb then evaluator ef eb em else evaluator ef em eb);
          h = (if em > eb then \<lparr>Front = front, Middle = back, Back = middle\<rparr>
               else \<lparr>Front = front, Middle = middle, Back = back\<rparr>);
          st = st\<lparr>stats := (stats st)\<lparr>Hands := Hands (stats st) + 1\<rparr>, scored := scored st @ [(h, ev)]\<rparr>
      in if ev \<ge> bestEV st then st\<lparr>bestEV := ev, best := h\<rparr> else st)"

text \<open>
  The loop body once the three ranks are known. With \<open>prune\<close> false the lines that keep
  and consult \<^verbatim>\<open>maxima\<close> are left out: that is \<^verbatim>\<open>Play\<close> without its dominance filter.
\<close>

definition judge :: "bool \<Rightarrow> scorer \<Rightarrow> Card list \<Rightarrow> Card list \<Rightarrow> Card list \<Rightarrow> int16 \<Rightarrow> int16 \<Rightarrow> int16
    \<Rightarrow> play_state \<Rightarrow> play_state" where
  "judge prune evaluator front back middle ef em eb st =
     (if ef \<ge> em \<or> ef \<ge> eb then
        st\<lparr>stats := (stats st)\<lparr>StrongFront := StrongFront (stats st) + 1\<rparr>\<rparr>
      else if em = eb then
        st\<lparr>stats := (stats st)\<lparr>BackEqualsMiddle := BackEqualsMiddle (stats st) + 1\<rparr>\<rparr>
      else if \<not> prune then score_hand evaluator front back middle ef em eb st
      else
        let (sem, seb) = (if em > eb then (eb, em) else (em, eb));
            (dominated, mx) = scan (ef, sem, seb) 0 (maxima st);
            st = st\<lparr>maxima := mx\<rparr>
        in if dominated then st
           else
             let st = (if length (maxima st) < cap_maxima
                       then st\<lparr>maxima := maxima st @ [(ef, sem, seb)]\<rparr> else st)
             in score_hand evaluator front back middle ef em eb st)"

definition body4 :: "bool \<Rightarrow> evalTable \<Rightarrow> Card list \<Rightarrow> scorer \<Rightarrow> int list \<Rightarrow> Card list \<Rightarrow> int16
    \<Rightarrow> int list \<Rightarrow> play_state \<Rightarrow> play_state option" where
  "body4 prune tbl c evaluator fIdx front ef bIdx st =
     (case deal c fIdx bIdx of None \<Rightarrow> None
      | Some (back, middle) \<Rightarrow>
         (case Eval5 tbl back of None \<Rightarrow> None
          | Some eb \<Rightarrow>
         (case Eval5 tbl middle of None \<Rightarrow> None
          | Some em \<Rightarrow> Some (judge prune evaluator front back middle ef em eb st))))"

definition body3 :: "bool \<Rightarrow> evalTable \<Rightarrow> Card list \<Rightarrow> scorer \<Rightarrow> int list \<Rightarrow> play_state
    \<Rightarrow> play_state option" where
  "body3 prune tbl c evaluator fIdx st =
     (case index_opt c (fIdx ! 0) of None \<Rightarrow> None | Some c0 \<Rightarrow>
     (case index_opt c (fIdx ! 1) of None \<Rightarrow> None | Some c1 \<Rightarrow>
     (case index_opt c (fIdx ! 2) of None \<Rightarrow> None | Some c2 \<Rightarrow>
     (case Eval3 tbl [c0, c1, c2] of None \<Rightarrow> None | Some ef \<Rightarrow>
        for_next next4 (body4 prune tbl c evaluator fIdx [c0, c1, c2] ef) [- 1, - 1, 1, 2, 3] st))))"

definition state0 :: play_state where
  "state0 = \<lparr>maxima = [], best = Hand_zero, bestEV = - 9999999.9,
             stats = \<lparr>Hands = 0, StrongFront = 0, BackEqualsMiddle = 0\<rparr>, scored = []\<rparr>"

definition Play_run :: "bool \<Rightarrow> evalTable \<Rightarrow> Card list \<Rightarrow> HandEvaluator \<Rightarrow> play_state option" where
  "Play_run prune tbl c he = for_next next3 (body3 prune tbl c (he c)) [- 1, 1, 2] state0"

definition Play :: "evalTable \<Rightarrow> Card list \<Rightarrow> HandEvaluator \<Rightarrow> (Hand \<times> EvalStats) option" where
  "Play tbl c he = map_option (\<lambda>st. (best st, stats st)) (Play_run True tbl c he)"


subsection \<open>The deck (\<^verbatim>\<open>MakeCard\<close>, \<^verbatim>\<open>Cards\<close>)\<close>

text \<open>
  \<^verbatim>\<open>Card(uint16(1<<(6+s)) | primes[r-1])\<close>, the card that \<^verbatim>\<open>MakeCard\<close> returns for a suit
  \<open>s\<close> from 0 (clubs) to 3 (spades) and a rank \<open>r\<close> from 1 (ace) to 13 (king); for other
  arguments \<^verbatim>\<open>MakeCard\<close> returns an error or panics. \<^verbatim>\<open>Cards\<close> is the deck as \<^verbatim>\<open>init\<close>
  appends it, suit by suit.
\<close>

definition primes :: "16 word list" where
  "primes = [2, 3, 5, 7, 11, 13, 17, 23, 29, 31, 37, 41, 43]"

definition make_card :: "nat \<Rightarrow> int \<Rightarrow> Card" where
  "make_card s r = push_bit (6 + s) 1 OR primes ! nat (r - 1)"

definition Cards :: "Card list" where
  "Cards = concat (map (\<lambda>s. map (\<lambda>r. make_card s r) [1, 2, 3, 4, 5, 6, 7, 8, 9, 10, 11, 12, 13]) [0, 1, 2, 3])"

section \<open>Notions used in the statements\<close>

subsection \<open>Expected 2-4 score of independent lanes\<close>

text \<open>
  Each lane is won with its probability and lost otherwise, independently of the others;
  a won lane is a lane where the first side has the higher rank.
\<close>

definition lane_prob :: "real \<Rightarrow> bool \<Rightarrow> real" where
  "lane_prob p won = (if won then p else 1 - p)"

definition cmp_outcome :: "bool \<Rightarrow> bool \<Rightarrow> bool \<Rightarrow> int" where
  "cmp_outcome vf vm vb = cmp (b2i vf) (b2i (\<not> vf)) (b2i vm) (b2i (\<not> vm)) (b2i vb) (b2i (\<not> vb))"

definition expected_cmp :: "real \<Rightarrow> real \<Rightarrow> real \<Rightarrow> real" where
  "expected_cmp pf pm pb =
     (\<Sum>vf \<leftarrow> [True, False]. \<Sum>vm \<leftarrow> [True, False]. \<Sum>vb \<leftarrow> [True, False].
        lane_prob pf vf * lane_prob pm vm * lane_prob pb vb * real_of_int (cmp_outcome vf vm vb))"

subsection \<open>Empirical distribution of the sampled ranks\<close>

definition lane :: "nat \<Rightarrow> (int16 \<times> int16 \<times> int16) \<Rightarrow> int16" where
  "lane l s = (case s of (s0, s1, s2) \<Rightarrow> if l = 0 then s0 else if l = 1 then s1 else s2)"

definition lane_of :: "nat \<Rightarrow> wins3 \<Rightarrow> real list" where
  "lane_of l w = (case w of (w0, w1, w2) \<Rightarrow> if l = 0 then w0 else if l = 1 then w1 else w2)"

text \<open>Number of samples whose lane \<open>l\<close> rank is at most \<open>r\<close>.\<close>

definition count_le :: "nat \<Rightarrow> (int16 \<times> int16 \<times> int16) list \<Rightarrow> int \<Rightarrow> nat" where
  "count_le l played r = length (filter (\<lambda>s. lane l s \<le> r) played)"

definition count_eq :: "nat \<Rightarrow> (int16 \<times> int16 \<times> int16) list \<Rightarrow> int \<Rightarrow> nat" where
  "count_eq l played r = length (filter (\<lambda>s. lane l s = r) played)"

definition tallied :: "nat \<Rightarrow> (int16 \<times> int16 \<times> int16) list \<Rightarrow> real list \<Rightarrow> real list \<Rightarrow> bool" where
  "tallied l ps w w' \<longleftrightarrow> length w' = length w \<and>
     (\<forall>j < length w. w' ! j = w ! j + real (count_eq l ps (int j)))"

definition is_cdf :: "(int16 \<times> int16 \<times> int16) list \<Rightarrow> int \<Rightarrow> nat \<Rightarrow> real list \<Rightarrow> bool" where
  "is_cdf played n l w \<longleftrightarrow>
     length w = nat (ScoreMax + 1)
     \<and> (\<forall>r. 0 \<le> r \<and> r \<le> ScoreMax \<longrightarrow>
           w ! nat r = real (count_le l played r) / real_of_int n \<and> 0 \<le> w ! nat r \<and> w ! nat r \<le> 1)
     \<and> (\<forall>r r'. 0 \<le> r \<and> r \<le> r' \<and> r' \<le> ScoreMax \<longrightarrow> w ! nat r \<le> w ! nat r')"

subsection \<open>Roll-out evaluators before \<^verbatim>\<open>Init\<close>\<close>

text \<open>The zero value of the field \<^verbatim>\<open>wins\<close>: three nil slices, as before \<^verbatim>\<open>Init\<close> has run.\<close>

definition wins_zero :: wins3 where
  "wins_zero = ([], [], [])"

definition uninitialised :: "RolloutEvaluator \<Rightarrow> bool" where
  "uninitialised re \<longleftrightarrow> re_wins re = wins_zero"

definition fresh_rollout :: RolloutEvaluator where
  "fresh_rollout = \<lparr>PreRollout = True, Separable = True, re_N = 1000, re_played = [], re_wins = wins_zero\<rparr>"

subsection \<open>The enumeration of \<^verbatim>\<open>Play\<close> as a list\<close>

text \<open>
  The two loops of \<^verbatim>\<open>Play\<close> visit the index arrays that \<^verbatim>\<open>next3\<close> and \<^verbatim>\<open>next4\<close>
  produce. \<open>unroll\<close> runs such a function for at most \<open>n\<close> rounds and lists the arrays
  it produces; \<open>fronts\<close> and \<open>backs\<close> are the lists of the outer and of the inner loop,
  \<open>fold_opt\<close> is a loop over a list whose body may fail.
\<close>

fun fold_opt :: "('a \<Rightarrow> 's \<Rightarrow> 's option) \<Rightarrow> 'a list \<Rightarrow> 's \<Rightarrow> 's option" where
  "fold_opt body [] s = Some s"
| "fold_opt body (x # xs) s = Option.bind (body x s) (fold_opt body xs)"

fun unroll :: "nat \<Rightarrow> (int list \<Rightarrow> int list \<times> bool) \<Rightarrow> int list \<Rightarrow> int list list option" where
  "unroll 0 nxt ix = None"
| "unroll (Suc n) nxt ix =
     (case nxt ix of (ix', ok) \<Rightarrow> if ok then map_option ((#) ix') (unroll n nxt ix') else Some [])"

definition fronts :: "int list list" where
  "fronts = the (unroll 300 next3 [- 1, 1, 2])"

definition backs :: "int list list" where
  "backs = the (unroll 200 next4 [- 1, - 1, 1, 2, 3])"

text \<open>
  What the arrays in the two lists are: three rising indices into the thirteen cards, and
  \<open>-1\<close> followed by four rising indices into the nine places behind the first card that
  is not in the front.
\<close>

definition valid3 :: "int list \<Rightarrow> bool" where
  "valid3 ix = (case ix of [a, b, c] \<Rightarrow> 0 \<le> a \<and> a < b \<and> b < c \<and> c \<le> 12 | _ \<Rightarrow> False)"

definition valid4 :: "int list \<Rightarrow> bool" where
  "valid4 ix = (case ix of [z, a, b, c, d] \<Rightarrow> z = - 1 \<and> 0 \<le> a \<and> a < b \<and> b < c \<and> c < d \<and> d \<le> 8
                | _ \<Rightarrow> False)"

text \<open>
  The invariant of the loop that deals the cards, before index \<open>i\<close>: the cards dealt so
  far are the first \<open>i\<close> cards.
\<close>

definition deal_inv :: "Card list \<Rightarrow> int list \<Rightarrow> int list \<Rightarrow> int \<Rightarrow> int \<times> int \<times> Card list \<times> Card list \<Rightarrow> bool" where
  "deal_inv c fIdx bIdx i s =
     (case s of (f, b, back, middle) \<Rightarrow>
        0 \<le> f \<and> f \<le> 3 \<and> 0 \<le> b \<and> b \<le> 5 \<and> f + b \<le> i \<and> i - f - b \<le> 5
        \<and> length back = 5 \<and> length middle = 5
        \<and> (f < 3 \<longrightarrow> i \<le> fIdx ! nat f)
        \<and> (b < 5 \<longrightarrow> i \<le> bIdx ! nat b + f + 1)
        \<and> mset (take (nat b) back) + mset (take (nat (i - f - b)) middle)
            + mset (map (\<lambda>j. c ! nat (fIdx ! j)) [0..<nat f]) = mset (take (nat i) c))"

subsection \<open>Tables that answer, lanes and ranks\<close>

text \<open>
  The probe loop of \<^verbatim>\<open>Eval3\<close> and \<^verbatim>\<open>Eval5\<close> ends only on a hit. \<open>evals_on tbl c\<close>:
  the table answers for every three and every five distinct cards of \<open>c\<close>.
\<close>

definition evals_on :: "evalTable \<Rightarrow> Card list \<Rightarrow> bool" where
  "evals_on tbl c \<longleftrightarrow>
     (\<forall>h. distinct h \<and> set h \<subseteq> set c \<longrightarrow>
        (length h = 3 \<longrightarrow> Eval3 tbl h \<noteq> None) \<and> (length h = 5 \<longrightarrow> Eval5 tbl h \<noteq> None))"

text \<open>
  The three lanes that \<^verbatim>\<open>Play\<close> forms for a pair of index arrays, their ranks, the
  pairs in the order of the two loops, and the loop body as a function of the pair.
\<close>

definition front_of :: "Card list \<Rightarrow> int list \<Rightarrow> Card list" where
  "front_of c fIdx = [c ! nat (fIdx ! 0), c ! nat (fIdx ! 1), c ! nat (fIdx ! 2)]"

definition back_of :: "Card list \<Rightarrow> int list \<Rightarrow> int list \<Rightarrow> Card list" where
  "back_of c fIdx bIdx = fst (the (deal c fIdx bIdx))"

definition middle_of :: "Card list \<Rightarrow> int list \<Rightarrow> int list \<Rightarrow> Card list" where
  "middle_of c fIdx bIdx = snd (the (deal c fIdx bIdx))"

definition rank3 :: "evalTable \<Rightarrow> Card list \<Rightarrow> int16" where
  "rank3 tbl h = the (Eval3 tbl h)"

definition rank5 :: "evalTable \<Rightarrow> Card list \<Rightarrow> int16" where
  "rank5 tbl h = the (Eval5 tbl h)"

definition partitions :: "(int list \<times> int list) list" where
  "partitions = List.product fronts backs"

definition step :: "bool \<Rightarrow> evalTable \<Rightarrow> Card list \<Rightarrow> scorer \<Rightarrow> int list \<times> int list \<Rightarrow> play_state \<Rightarrow> play_state" where
  "step prune tbl c evaluator p st =
     (case p of (fIdx, bIdx) \<Rightarrow>
        judge prune evaluator (front_of c fIdx) (back_of c fIdx bIdx) (middle_of c fIdx bIdx)
          (rank3 tbl (front_of c fIdx)) (rank5 tbl (middle_of c fIdx bIdx))
          (rank5 tbl (back_of c fIdx bIdx)) st)"

subsection \<open>Legal hands\<close>

text \<open>
  A hand is legal for the deal when its lanes have three, five and five cards, together
  exactly the thirteen cards of the deal, and the ranks rise strictly from front to
  middle to back. A partition is fouled when \<^verbatim>\<open>Play\<close> skips it for its ranks.
\<close>

definition legal_hand :: "evalTable \<Rightarrow> Card list \<Rightarrow> Hand \<Rightarrow> bool" where
  "legal_hand tbl c h \<longleftrightarrow>
     length (Front h) = 3 \<and> length (Middle h) = 5 \<and> length (Back h) = 5
     \<and> mset (Front h) + mset (Middle h) + mset (Back h) = mset c
     \<and> (\<exists>ef em eb. Eval3 tbl (Front h) = Some ef \<and> Eval5 tbl (Middle h) = Some em
            \<and> Eval5 tbl (Back h) = Some eb \<and> ef < em \<and> em < eb)"

definition fouled :: "evalTable \<Rightarrow> Card list \<Rightarrow> int list \<times> int list \<Rightarrow> bool" where
  "fouled tbl c p =
     (case p of (fIdx, bIdx) \<Rightarrow>
        let ef = rank3 tbl (front_of c fIdx); em = rank5 tbl (middle_of c fIdx bIdx);
            eb = rank5 tbl (back_of c fIdx bIdx)
        in ef \<ge> em \<or> ef \<ge> eb \<or> em = eb)"

definition lanes_ok :: "evalTable \<Rightarrow> Card list \<Rightarrow> Card list \<Rightarrow> Card list \<Rightarrow> Card list
    \<Rightarrow> int16 \<Rightarrow> int16 \<Rightarrow> int16 \<Rightarrow> bool" where
  "lanes_ok tbl c fr bk md ef em eb \<longleftrightarrow>
     length fr = 3 \<and> length bk = 5 \<and> length md = 5 \<and> mset fr + mset md + mset bk = mset c
     \<and> Eval3 tbl fr = Some ef \<and> Eval5 tbl md = Some em \<and> Eval5 tbl bk = Some eb"

text \<open>
  The value \<^verbatim>\<open>bestEV\<close> starts with, the states in which nothing was scored yet, and the
  states whose best hand is legal.
\<close>

definition sentinel :: real where
  "sentinel = - 9999999.9"

definition unscored :: "play_state \<Rightarrow> bool" where
  "unscored st \<longleftrightarrow> Hands (stats st) = 0 \<and> maxima st = [] \<and> best st = Hand_zero
     \<and> bestEV st = sentinel \<and> scored st = []"

definition has_legal :: "evalTable \<Rightarrow> Card list \<Rightarrow> play_state \<Rightarrow> bool" where
  "has_legal tbl c st \<longleftrightarrow> Hands (stats st) > 0 \<and> legal_hand tbl c (best st)"

subsection \<open>The hand and the score of a partition\<close>

text \<open>
  The hand that \<^verbatim>\<open>Play\<close> stores for a partition (the lane of the higher rank goes to the
  back), the triple of its ranks, the score of a triple and of a hand, and monotone
  scorers.
\<close>

definition hand_of :: "Card list \<Rightarrow> Card list \<Rightarrow> Card list \<Rightarrow> int16 \<Rightarrow> int16 \<Rightarrow> Hand" where
  "hand_of fr bk md em eb =
     (if em > eb then \<lparr>Front = fr, Middle = bk, Back = md\<rparr> else \<lparr>Front = fr, Middle = md, Back = bk\<rparr>)"

definition triple_of :: "int16 \<Rightarrow> int16 \<Rightarrow> int16 \<Rightarrow> triple" where
  "triple_of ef em eb = (if em > eb then (ef, eb, em) else (ef, em, eb))"

definition ev3 :: "scorer \<Rightarrow> triple \<Rightarrow> real" where
  "ev3 evaluator t = (case t of (f, m, b) \<Rightarrow> evaluator f m b)"



text \<open>
  \<open>noted\<close> is the count and the history of a scored hand. \<open>last_best\<close>: \<^verbatim>\<open>bestEV\<close> is the
  greatest score so far (or its first value), and \<^verbatim>\<open>best\<close> is the last hand scored that
  reached it.
\<close>

definition noted :: "play_state \<Rightarrow> Hand \<Rightarrow> real \<Rightarrow> play_state" where
  "noted st h e = st\<lparr>stats := (stats st)\<lparr>Hands := Hands (stats st) + 1\<rparr>, scored := scored st @ [(h, e)]\<rparr>"



subsection \<open>Inputs of the examples\<close>

text \<open>
  The deal of the aces, kings and queens and the jack of hearts, and a scorer that is
  below the first value of \<^verbatim>\<open>bestEV\<close> everywhere.
\<close>

definition deal_E5 :: "Card list" where
  "deal_E5 = [make_card 2 1, make_card 1 1, make_card 0 1, make_card 3 1,
              make_card 2 13, make_card 1 13, make_card 0 13, make_card 3 13,
              make_card 2 12, make_card 1 12, make_card 0 12, make_card 3 12, make_card 2 11]"

definition low_scorer :: HandEvaluator where
  "low_scorer c f m b = - 10000000"

text \<open>
A state in which \<^verbatim>\<open>best\<close> and \<^verbatim>\<open>bestEV\<close> are as at the start.
\<close>

definition untouched :: "play_state \<Rightarrow> bool" where
  "untouched st \<longleftrightarrow> best st = Hand_zero \<and> bestEV st = sentinel"

text \<open>
  A table that holds the key \<open>i\<close> at index \<open>i\<close> and ranks it \<open>g i\<close>: every key below
  \<open>2\<^sup>1\<^sup>5\<close> is found at the first probe. \<open>weight\<close> is the prime of a card. \<open>low_cards c\<close>:
  the primes are at most 7 and no five cards share a suit, so that every hand of \<open>c\<close>
  has a key below \<open>2\<^sup>1\<^sup>5\<close>.
\<close>

definition toy_table :: "(nat \<Rightarrow> int16) \<Rightarrow> evalTable" where
  "toy_table g i = \<lparr>key = of_nat i, val = g i\<rparr>"

definition weight :: "Card \<Rightarrow> nat" where
  "weight x = unat (x AND 0x3f)"

definition low_cards :: "Card list \<Rightarrow> bool" where
  "low_cards c \<longleftrightarrow> list_all (\<lambda>x. weight x \<le> 7) c
     \<and> list_all (\<lambda>n. length (filter (\<lambda>x. bit x n) c) \<le> 4) [6, 7, 8, 9]"

text \<open>
  The aces, twos and threes and the four of clubs; the scorer that is 0 everywhere; and
  two rankings of the keys of this deal.
\<close>

definition deal_low :: "Card list" where
  "deal_low = [make_card 0 1, make_card 1 1, make_card 2 1, make_card 3 1,
               make_card 0 2, make_card 1 2, make_card 2 2, make_card 3 2,
               make_card 0 3, make_card 1 3, make_card 2 3, make_card 3 3, make_card 0 4]"

definition zero_scorer :: HandEvaluator where
  "zero_scorer c f m b = 0"

definition tie_ranks :: "nat \<Rightarrow> int16" where
  "tie_ranks k = (if k = 162 then 1 else if k = 270 then 2 else if k = 2625 then 3
                  else if k = 4375 then 4 else 0)"








subsection \<open>Scorer files\<close>

text \<open>
  A well-formed file: three lanes, each its length and that many decimals. The decimals
  are counted in millionths, as \<open>FloatTok\<close> holds them.
\<close>

definition lane_file :: "int list \<Rightarrow> token list" where
  "lane_file ks = IntTok (int (length ks)) # map FloatTok ks"

definition file_tokens :: "int list \<Rightarrow> int list \<Rightarrow> int list \<Rightarrow> token list" where
  "file_tokens k0 k1 k2 = lane_file k0 @ lane_file k1 @ lane_file k2"

text \<open>What \<^verbatim>\<open>%f\<close> reads from the decimal \<open>k / 10\<^sup>6\<close>, and the decimals it does read.\<close>

definition loaded :: "int \<Rightarrow> real" where
  "loaded k = float64 (real_of_int k / 1000000)"

definition readable :: "int \<Rightarrow> bool" where
  "readable k \<longleftrightarrow> \<bar>loaded k\<bar> < pow2 1024"

text \<open>The lengths that \<^verbatim>\<open>%d\<close> reads back and \<^verbatim>\<open>make\<close> allocates.\<close>

definition fits :: "int \<Rightarrow> 'a list \<Rightarrow> bool" where
  "fits room xs \<longleftrightarrow> int (length xs) \<le> room \<and> in_int (int (length xs))"

text \<open>A probability held in a \<^verbatim>\<open>float64\<close>.\<close>

definition prob64 :: "real \<Rightarrow> bool" where
  "prob64 x \<longleftrightarrow> 0 \<le> x \<and> x \<le> 1 \<and> float64 x = x"

text \<open>Equal to six decimal places: less than one unit of the sixth place apart.\<close>

definition close6 :: "real \<Rightarrow> real \<Rightarrow> bool" where
  "close6 x y \<longleftrightarrow> \<bar>y - x\<bar> \<le> 1 / 10 ^ 6"

section \<open>Scoring\<close>

subsection \<open>C5: symmetry and range of \<^verbatim>\<open>cmp\<close>\<close>

text \<open>
  C5. For all rank triples \<open>(a0, a1, a2)\<close> and \<open>(b0, b1, b2)\<close>: swapping the two sides negates
  the score; its absolute value is one of 0, 1, 2, 3, 4; it is 4 exactly when the first
  side strictly wins all three lanes and -4 exactly when the second side does.
\<close>

theorem cmp_symmetry_range_scoop:
  "cmp a0 b0 a1 b1 a2 b2 = - cmp b0 a0 b1 a1 b2 a2
   \<and> \<bar>cmp a0 b0 a1 b1 a2 b2\<bar> \<in> {0, 1, 2, 3, 4}
   \<and> (cmp a0 b0 a1 b1 a2 b2 = 4 \<longleftrightarrow> a0 > b0 \<and> a1 > b1 \<and> a2 > b2)
   \<and> (cmp a0 b0 a1 b1 a2 b2 = - 4 \<longleftrightarrow> b0 > a0 \<and> b1 > a1 \<and> b2 > a2)"
  by (simp add: cmp_def b2i_def Let_def)

subsection \<open>C4: the sampled scorer computes the expected 2-4 score\<close>

lemma score_expr_expected: "score_expr pf pm pb = expected_cmp pf pm pb"
  by (simp add: score_expr_def expected_cmp_def lane_prob_def cmp_outcome_def cmp_def b2i_def Let_def
      algebra_simps)

text \<open>
  C4. Whenever the three ranks are inside the win arrays, \<^verbatim>\<open>evaluateHand\<close> returns the
  expectation of \<open>cmp\<close> over three independent lanes, lane \<open>l\<close> being won with the
  probability \<open>p\<^sub>l\<close> read from the arrays and lost with probability \<open>1 - p\<^sub>l\<close>; outside
  the arrays it panics. The identity holds for all real \<open>p\<^sub>l\<close>, in particular for those
  in \<open>[0, 1]\<close>.
\<close>

theorem evaluateHand_is_expected_cmp:
  "evaluateHand se f m b =
     (case se_wins se of (w0, w1, w2) \<Rightarrow>
        (case index_opt w0 f of None \<Rightarrow> None | Some pf \<Rightarrow>
        (case index_opt w1 m of None \<Rightarrow> None | Some pm \<Rightarrow>
        (case index_opt w2 b of None \<Rightarrow> None | Some pb \<Rightarrow>
           Some (expected_cmp pf pm pb)))))"
  by (simp add: evaluateHand_def score_expr_expected split: prod.splits option.splits)

section \<open>Roll-outs\<close>

subsection \<open>C8: the win arrays are empirical distribution functions\<close>

lemma cumulate_length [simp]: "length (cumulate n t xs) = length xs"
  by (induction xs arbitrary: t) auto

lemma cumulate_nth:
  "j < length xs \<Longrightarrow> cumulate n t xs ! j = (t + sum_list (take (Suc j) xs)) / real_of_int n"
proof (induction xs arbitrary: t j)
  case Nil
  then show ?case by simp
next
  case (Cons x xs)
  show ?case
  proof (cases j)
    case 0
    then show ?thesis by simp
  next
    case (Suc k)
    with Cons.prems have "k < length xs" by simp
    from Cons.IH [OF this, of "t + x"] Suc show ?thesis by (simp add: add.assoc)
  qed
qed

lemma bump_Some:
  "0 \<le> r \<Longrightarrow> r < int (length w) \<Longrightarrow> bump w r = Some (w[nat r := w ! nat r + 1])"
  by (simp add: bump_def)

lemma tally_spec:
  assumes "\<forall>s \<in> set ps. \<forall>l < 3. 0 \<le> lane l s \<and> lane l s < int k"
    and "length w0 = k" "length w1 = k" "length w2 = k"
  shows "\<exists>w0' w1' w2'. tally ps (w0, w1, w2) = Some (w0', w1', w2')
           \<and> tallied 0 ps w0 w0' \<and> tallied 1 ps w1 w1' \<and> tallied 2 ps w2 w2'"
  using assms
proof (induction ps arbitrary: w0 w1 w2)
  case Nil
  then show ?case by (simp add: tallied_def count_eq_def)
next
  case (Cons s ps)
  obtain s0 s1 s2 where s: "s = (s0, s1, s2)" by (cases s)
  from Cons.prems(1) have all: "\<forall>l < 3. 0 \<le> lane l s \<and> lane l s < int k"
    by simp
  have "0 \<le> lane 0 s \<and> lane 0 s < int k" "0 \<le> lane 1 s \<and> lane 1 s < int k"
    "0 \<le> lane 2 s \<and> lane 2 s < int k"
    using all by simp_all
  then have r: "0 \<le> s0" "s0 < int k" "0 \<le> s1" "s1 < int k" "0 \<le> s2" "s2 < int k"
    by (simp_all add: lane_def s)
  let ?w0 = "w0[nat s0 := w0 ! nat s0 + 1]"
  let ?w1 = "w1[nat s1 := w1 ! nat s1 + 1]"
  let ?w2 = "w2[nat s2 := w2 ! nat s2 + 1]"
  have rest: "\<forall>s \<in> set ps. \<forall>l < 3. 0 \<le> lane l s \<and> lane l s < int k"
    using Cons.prems(1) by simp
  from Cons.IH [OF rest, of ?w0 ?w1 ?w2] Cons.prems(2-4)
  obtain w0' w1' w2' where t: "tally ps (?w0, ?w1, ?w2) = Some (w0', w1', w2')"
    and t0: "tallied 0 ps ?w0 w0'" and t1: "tallied 1 ps ?w1 w1'" and t2: "tallied 2 ps ?w2 w2'"
    by auto
  have step: "tally (s # ps) (w0, w1, w2) = Some (w0', w1', w2')"
    using t r Cons.prems(2-4) by (simp add: s bump_def)
  have "tallied 0 (s # ps) w0 w0'"
    using t0 r Cons.prems(2)
    by (auto simp: tallied_def count_eq_def lane_def s nth_list_update)
  moreover have "tallied 1 (s # ps) w1 w1'"
    using t1 r Cons.prems(3)
    by (auto simp: tallied_def count_eq_def lane_def s nth_list_update)
  moreover have "tallied 2 (s # ps) w2 w2'"
    using t2 r Cons.prems(4)
    by (auto simp: tallied_def count_eq_def lane_def s nth_list_update)
  ultimately show ?case using step by blast
qed


lemma indicator_sum:
  "(\<Sum>i<m. if x = int i then 1 else (0::real)) = (if 0 \<le> x \<and> x < int m then 1 else 0)"
proof -
  have "(\<Sum>i<m. if x = int i then 1 else (0::real)) = (\<Sum>i\<in>{..<m}. if 0 \<le> x \<and> nat x = i then 1 else 0)"
    by (rule sum.cong) auto
  also have "\<dots> = (if 0 \<le> x \<and> nat x \<in> {..<m} then 1 else 0)"
    by (cases "0 \<le> x") simp_all
  also have "\<dots> = (if 0 \<le> x \<and> x < int m then 1 else 0)"
    by auto
  finally show ?thesis .
qed

lemma count_eq_sum:
  "(\<Sum>i<m. real (count_eq l ps (int i))) =
     real (length (filter (\<lambda>s. 0 \<le> lane l s \<and> lane l s < int m) ps))"
proof (induction ps)
  case Nil
  then show ?case by (simp add: count_eq_def)
next
  case (Cons s ps)
  have "(\<Sum>i<m. real (count_eq l (s # ps) (int i)))
      = (\<Sum>i<m. (if lane l s = int i then 1 else 0) + real (count_eq l ps (int i)))"
    by (rule sum.cong) (auto simp: count_eq_def)
  also have "\<dots> = (\<Sum>i<m. if lane l s = int i then 1 else 0) + (\<Sum>i<m. real (count_eq l ps (int i)))"
    by (simp add: sum.distrib)
  finally show ?case
    using Cons.IH by (simp add: indicator_sum)
qed

lemma tallied_prefix_sum:
  assumes "tallied l ps (replicate k 0) w'" and "j < k"
    and "\<forall>s \<in> set ps. 0 \<le> lane l s"
  shows "sum_list (take (Suc j) w') = real (count_le l ps (int j))"
proof -
  from assms(1) have len: "length w' = k" and nth: "\<And>i. i < k \<Longrightarrow> w' ! i = real (count_eq l ps (int i))"
    by (simp_all add: tallied_def)
  have lt: "length (take (Suc j) w') = Suc j"
    using len assms(2) by simp
  have "sum_list (take (Suc j) w') = (\<Sum>i<Suc j. take (Suc j) w' ! i)"
    unfolding sum_list_sum_nth lt atLeast0LessThan ..
  also have "\<dots> = (\<Sum>i<Suc j. real (count_eq l ps (int i)))"
    using assms(2) by (intro sum.cong) (auto simp: nth)
  also have "\<dots> = real (length (filter (\<lambda>s. 0 \<le> lane l s \<and> lane l s < int (Suc j)) ps))"
    by (rule count_eq_sum)
  also have "filter (\<lambda>s. 0 \<le> lane l s \<and> lane l s < int (Suc j)) ps = filter (\<lambda>s. lane l s \<le> int j) ps"
    using assms(3) by (intro filter_cong) auto
  finally show ?thesis by (simp add: count_le_def)
qed

lemma count_le_mono: "r \<le> r' \<Longrightarrow> count_le l ps r \<le> count_le l ps r'"
proof (induction ps)
  case Nil
  then show ?case by (simp add: count_le_def)
next
  case (Cons s ps)
  then show ?case by (auto simp: count_le_def)
qed

lemma count_le_bound: "count_le l ps r \<le> length ps"
  by (simp add: count_le_def)

lemma cumulate_is_cdf:
  assumes t: "tallied l played (replicate (nat (ScoreMax + 1)) 0) w'"
    and n: "1 \<le> n" "length played = nat n"
    and nonneg: "\<forall>s \<in> set played. 0 \<le> lane l s"
  shows "is_cdf played n l (cumulate n 0 w')"
proof -
  let ?k = "nat (ScoreMax + 1)"
  from t have len: "length w' = ?k" by (simp add: tallied_def)
  have val: "cumulate n 0 w' ! nat r = real (count_le l played r) / real_of_int n"
    if "0 \<le> r" "r \<le> ScoreMax" for r
  proof -
    from that have j: "nat r < ?k" by simp
    then have "cumulate n 0 w' ! nat r = (0 + sum_list (take (Suc (nat r)) w')) / real_of_int n"
      using len by (intro cumulate_nth) simp
    also have "sum_list (take (Suc (nat r)) w') = real (count_le l played (int (nat r)))"
      by (rule tallied_prefix_sum [OF t j nonneg])
    finally show ?thesis using that by simp
  qed
  have npos: "0 < real_of_int n" using n by simp
  have bound: "real (count_le l played r) \<le> real_of_int n" for r
  proof -
    have "count_le l played r \<le> nat n" using count_le_bound [of l played r] n by simp
    then show ?thesis using n by linarith
  qed
  show ?thesis
    unfolding is_cdf_def
  proof (intro conjI allI impI)
    show "length (cumulate n 0 w') = ?k" using len by simp
  next
    fix r assume "0 \<le> r \<and> r \<le> ScoreMax"
    then show "cumulate n 0 w' ! nat r = real (count_le l played r) / real_of_int n"
      using val by simp
  next
    fix r assume r: "0 \<le> r \<and> r \<le> ScoreMax"
    then show "0 \<le> cumulate n 0 w' ! nat r" using val npos by simp
  next
    fix r assume r: "0 \<le> r \<and> r \<le> ScoreMax"
    then show "cumulate n 0 w' ! nat r \<le> 1" using val npos bound [of r] by simp
  next
    fix r r' assume r: "0 \<le> r \<and> r \<le> r' \<and> r' \<le> ScoreMax"
    then have "real (count_le l played r) \<le> real (count_le l played r')"
      using count_le_mono [of r r' l played] by simp
    then show "cumulate n 0 w' ! nat r \<le> cumulate n 0 w' ! nat r'"
      using val [of r] val [of r'] r npos by (simp add: divide_right_mono)
  qed
qed

text \<open>
  C8. For \<open>N \<ge> 1\<close> samples whose ranks lie in \<open>[0, ScoreMax]\<close>, each of the three win
  arrays has length \<open>ScoreMax + 1\<close>; its entry at rank \<open>r\<close> is the number of samples whose
  rank in that lane is at most \<open>r\<close>, divided by \<open>N\<close>; so it lies in \<open>[0, 1]\<close> and the array
  is non-decreasing.
\<close>

theorem rollout_wins_cdf:
  assumes "1 \<le> n" and "length played = nat n"
    and "\<forall>s \<in> set played. \<forall>l < 3. 0 \<le> lane l s \<and> lane l s \<le> ScoreMax"
  shows "\<exists>w0 w1 w2. rollout_wins played n = Some (w0, w1, w2)
           \<and> is_cdf played n 0 w0 \<and> is_cdf played n 1 w1 \<and> is_cdf played n 2 w2"
proof -
  let ?k = "nat (ScoreMax + 1)"
  let ?z = "replicate ?k (0::real)"
  have rng: "\<forall>s \<in> set played. \<forall>l < 3. 0 \<le> lane l s \<and> lane l s < int ?k"
  proof (intro ballI allI impI)
    fix s l assume "s \<in> set played" "l < (3::nat)"
    with assms(3) have "0 \<le> lane l s \<and> lane l s \<le> ScoreMax" by blast
    then show "0 \<le> lane l s \<and> lane l s < int ?k" by (simp add: ScoreMax_def)
  qed
  from tally_spec [OF rng, of ?z ?z ?z]
  obtain w0 w1 w2 where t: "tally played (?z, ?z, ?z) = Some (w0, w1, w2)"
    and t0: "tallied 0 played ?z w0" and t1: "tallied 1 played ?z w1" and t2: "tallied 2 played ?z w2"
    by auto
  have nn: "\<forall>s \<in> set played. 0 \<le> lane l s" if "l < 3" for l
    using assms(3) that by auto
  have "rollout_wins played n = Some (cumulate n 0 w0, cumulate n 0 w1, cumulate n 0 w2)"
    using t by (simp add: rollout_wins_def)
  moreover have "is_cdf played n 0 (cumulate n 0 w0)"
    by (rule cumulate_is_cdf [OF t0 assms(1,2) nn]) simp
  moreover have "is_cdf played n 1 (cumulate n 0 w1)"
    by (rule cumulate_is_cdf [OF t1 assms(1,2) nn]) simp
  moreover have "is_cdf played n 2 (cumulate n 0 w2)"
    by (rule cumulate_is_cdf [OF t2 assms(1,2) nn]) simp
  ultimately show ?thesis by blast
qed

theorem rollout_wins_cdf_witness:
  "\<exists>w0 w1 w2. rollout_wins [(0, 5, 7), (3, 4, 6785)] 2 = Some (w0, w1, w2)
           \<and> is_cdf [(0, 5, 7), (3, 4, 6785)] 2 0 w0 \<and> is_cdf [(0, 5, 7), (3, 4, 6785)] 2 1 w1
           \<and> is_cdf [(0, 5, 7), (3, 4, 6785)] 2 2 w2"
  by (rule rollout_wins_cdf) (auto simp: lane_def ScoreMax_def)

subsection \<open>C9: the constructor does not refuse an uninitialised roll-out evaluator\<close>

text \<open>
  C9. The constructor is meant to refuse a roll-out evaluator that has not been
  initialised. On a separable, pre-rolled-out evaluator whose win arrays were never
  populated it returns no error: the test \<^verbatim>\<open>len(re.wins) == 0\<close> measures an array of
  three slices, so it never fires, and the result is a scorer with three empty arrays.
\<close>

theorem NewSampledEvaluatorFromRollout_uninitialised:
  "uninitialised fresh_rollout
   \<and> NewSampledEvaluatorFromRollout fresh_rollout = Inr \<lparr>se_wins = ([], [], [])\<rparr>"
  by (simp add: uninitialised_def fresh_rollout_def NewSampledEvaluatorFromRollout_def
      len_wins_def wins_zero_def)

section \<open>The play engine\<close>

lemma for_next_unroll:
  "unroll n nxt ix = Some xs \<Longrightarrow> for_next nxt body ix s = fold_opt body xs s"
proof (induction n arbitrary: ix s xs)
  case 0
  then show ?case by simp
next
  case (Suc n)
  obtain ix' ok where nx: "nxt ix = (ix', ok)" by (cases "nxt ix")
  show ?case
  proof (cases ok)
    case False
    with Suc.prems nx show ?thesis by (subst for_next.simps) simp
  next
    case True
    with Suc.prems nx obtain ys where ys: "unroll n nxt ix' = Some ys" "xs = ix' # ys"
      by auto
    have "for_next nxt body ix s = Option.bind (body ix' s) (for_next nxt body ix')"
      using nx True by (subst for_next.simps) simp
    also have "\<dots> = Option.bind (body ix' s) (fold_opt body ys)"
      using Suc.IH [OF ys(1)] by (cases "body ix' s") simp_all
    finally show ?thesis using ys by simp
  qed
qed

lemma unroll_fronts: "unroll 300 next3 [- 1, 1, 2] = Some fronts"
proof -
  have "unroll 300 next3 [- 1, 1, 2] \<noteq> None" by code_simp
  then show ?thesis by (auto simp: fronts_def)
qed

lemma unroll_backs: "unroll 200 next4 [- 1, - 1, 1, 2, 3] = Some backs"
proof -
  have "unroll 200 next4 [- 1, - 1, 1, 2, 3] \<noteq> None" by code_simp
  then show ?thesis by (auto simp: backs_def)
qed

lemma fronts_valid: "list_all valid3 fronts"
  by code_simp

lemma backs_valid: "list_all valid4 backs"
  by code_simp

lemma fronts_length: "length fronts = 286"
  by code_simp

lemma backs_length: "length backs = 126"
  by code_simp

lemma take_update_snoc: "n < length xs \<Longrightarrow> take (Suc n) (xs[n := x]) = take n xs @ [x]"
  by (simp add: take_Suc_conv_app_nth)

lemma nat_succ: "0 \<le> b \<Longrightarrow> nat (b + 1) = Suc (nat b)"
  by simp

lemma valid3_nth:
  assumes "valid3 fIdx" "0 \<le> f" "f < 3"
  shows "0 \<le> fIdx ! nat f" "fIdx ! nat f \<le> 10 + f" "f < 2 \<Longrightarrow> fIdx ! nat f < fIdx ! nat (f + 1)"
proof -
  from assms(1) obtain a0 a1 a2 where ix: "fIdx = [a0, a1, a2]" "0 \<le> a0" "a0 < a1" "a1 < a2" "a2 \<le> 12"
    by (auto simp: valid3_def split: list.splits)
  from assms(2,3) consider "f = 0" | "f = 1" | "f = 2" by linarith
  then have "0 \<le> fIdx ! nat f \<and> fIdx ! nat f \<le> 10 + f \<and> (f < 2 \<longrightarrow> fIdx ! nat f < fIdx ! nat (f + 1))"
    using ix by cases auto
  then show "0 \<le> fIdx ! nat f" "fIdx ! nat f \<le> 10 + f" "f < 2 \<Longrightarrow> fIdx ! nat f < fIdx ! nat (f + 1)"
    by simp_all
qed

lemma valid4_nth:
  assumes "valid4 bIdx" "0 \<le> b" "b < 5"
  shows "- 1 \<le> bIdx ! nat b" "bIdx ! nat b \<le> 4 + b" "b < 4 \<Longrightarrow> bIdx ! nat b < bIdx ! nat (b + 1)"
proof -
  from assms(1) obtain p1 p2 p3 p4 where ix: "bIdx = [- 1, p1, p2, p3, p4]"
      "0 \<le> p1" "p1 < p2" "p2 < p3" "p3 < p4" "p4 \<le> 8"
    by (auto simp: valid4_def split: list.splits)
  from assms(2,3) consider "b = 0" | "b = 1" | "b = 2" | "b = 3" | "b = 4" by linarith
  then have "- 1 \<le> bIdx ! nat b \<and> bIdx ! nat b \<le> 4 + b \<and> (b < 4 \<longrightarrow> bIdx ! nat b < bIdx ! nat (b + 1))"
    using ix by cases auto
  then show "- 1 \<le> bIdx ! nat b" "bIdx ! nat b \<le> 4 + b" "b < 4 \<Longrightarrow> bIdx ! nat b < bIdx ! nat (b + 1)"
    by simp_all
qed

lemma deal_step_inv:
  assumes inv: "deal_inv c fIdx bIdx i s" and i: "0 \<le> i" "i < 13" and len: "length c = 13"
    and v3: "valid3 fIdx" and v4: "valid4 bIdx"
  shows "\<exists>s'. deal_step c fIdx bIdx i s = Some s' \<and> deal_inv c fIdx bIdx (i + 1) s'"
proof -
  obtain f b bk md where s: "s = (f, b, bk, md)" by (cases s) auto
  from inv have bounds: "0 \<le> f" "f \<le> 3" "0 \<le> b" "b \<le> 5" "f + b \<le> i" "i - f - b \<le> 5"
      "length bk = 5" "length md = 5"
    and nf: "f < 3 \<Longrightarrow> i \<le> fIdx ! nat f" and nb: "b < 5 \<Longrightarrow> i \<le> bIdx ! nat b + f + 1"
    and ms: "mset (take (nat b) bk) + mset (take (nat (i - f - b)) md)
            + mset (map (\<lambda>j. c ! nat (fIdx ! j)) [0..<nat f]) = mset (take (nat i) c)"
    by (simp_all add: deal_inv_def s)
  have ci: "index_opt c i = Some (c ! nat i)" using i len by (simp add: index_opt_def)
  have tk: "take (nat (i + 1)) c = take (nat i) c @ [c ! nat i]"
    using i len by (simp add: nat_succ take_Suc_conv_app_nth)
  show ?thesis
  proof (cases "f < 3 \<and> fIdx ! nat f = i")
    case True
    then have st: "deal_step c fIdx bIdx i s = Some (f + 1, b, bk, md)"
      by (simp add: s)
    have m: "mset (map (\<lambda>j. c ! nat (fIdx ! j)) [0..<nat (f + 1)])
           = mset (map (\<lambda>j. c ! nat (fIdx ! j)) [0..<nat f]) + {#c ! nat i#}"
      using True bounds by (simp add: nat_succ)
    have "deal_inv c fIdx bIdx (i + 1) (f + 1, b, bk, md)"
      unfolding deal_inv_def prod.case
    proof (intro conjI impI)
      show "i + 1 \<le> fIdx ! nat (f + 1)" if "f + 1 < 3"
        using valid3_nth(3) [OF v3 bounds(1), of] True that by simp
      show "i + 1 \<le> bIdx ! nat b + (f + 1) + 1" if "b < 5"
        using nb that by simp
      show "mset (take (nat b) bk) + mset (take (nat (i + 1 - (f + 1) - b)) md)
            + mset (map (\<lambda>j. c ! nat (fIdx ! j)) [0..<nat (f + 1)]) = mset (take (nat (i + 1)) c)"
        unfolding m tk using ms by simp
    qed (use bounds True in simp_all)
    with st show ?thesis by blast
  next
    case nofront: False
    then have f': "f < 3 \<Longrightarrow> i + 1 \<le> fIdx ! nat f" using nf by force
    show ?thesis
    proof (cases "b < 5 \<and> i = bIdx ! nat b + f + 1")
      case True
      then have st: "deal_step c fIdx bIdx i s = Some (f, b + 1, bk[nat b := c ! nat i], md)"
        using nofront ci by (simp add: s)
      have tb: "take (nat (b + 1)) (bk[nat b := c ! nat i]) = take (nat b) bk @ [c ! nat i]"
      proof -
        from True have "b < 5" by simp
        with bounds have "nat b < length bk" by linarith
        then show ?thesis using bounds by (simp only: nat_succ take_update_snoc)
      qed
      have "deal_inv c fIdx bIdx (i + 1) (f, b + 1, bk[nat b := c ! nat i], md)"
        unfolding deal_inv_def prod.case
      proof (intro conjI impI)
        show "i + 1 \<le> fIdx ! nat f" if "f < 3" using f' that by simp
        show "i + 1 \<le> bIdx ! nat (b + 1) + f + 1" if "b + 1 < 5"
          using valid4_nth(3) [OF v4 bounds(3), of] True that by simp
        show "mset (take (nat (b + 1)) (bk[nat b := c ! nat i]))
            + mset (take (nat (i + 1 - f - (b + 1))) md)
            + mset (map (\<lambda>j. c ! nat (fIdx ! j)) [0..<nat f]) = mset (take (nat (i + 1)) c)"
        proof -
          have e: "i + 1 - f - (b + 1) = i - f - b" by simp
          show ?thesis unfolding tb tk e using ms by simp
        qed
      qed (use bounds True in simp_all)
      with st show ?thesis by blast
    next
      case noback: False
      then have b': "b < 5 \<Longrightarrow> i + 1 \<le> bIdx ! nat b + f + 1" using nb by force
      have room: "i - f - b < 5"
      proof (cases "b < 5")
        case True
        from b' [OF True] valid4_nth(2) [OF v4 bounds(3) True] show ?thesis by simp
      next
        case b5: False
        with bounds have b5': "b = 5" by simp
        show ?thesis
        proof (cases "f < 3")
          case True
          from f' [OF True] valid3_nth(2) [OF v3 bounds(1) True] b5' show ?thesis by simp
        next
          case False
          with bounds have "f = 3" by simp
          with b5' i show ?thesis by simp
        qed
      qed
      let ?m = "nat (i - f - b)"
      have st: "deal_step c fIdx bIdx i s = Some (f, b, bk, md[?m := c ! nat i])"
        using nofront noback ci room by (auto simp: s)
      have tm: "take (nat (i + 1 - f - b)) (md[?m := c ! nat i]) = take ?m md @ [c ! nat i]"
      proof -
        have "nat (i + 1 - f - b) = Suc ?m" using bounds by simp
        moreover have "?m < length md" using room bounds by linarith
        ultimately show ?thesis by (simp add: take_update_snoc)
      qed
      have "deal_inv c fIdx bIdx (i + 1) (f, b, bk, md[?m := c ! nat i])"
        unfolding deal_inv_def prod.case
      proof (intro conjI impI)
        show "i + 1 \<le> fIdx ! nat f" if "f < 3" using f' that by simp
        show "i + 1 \<le> bIdx ! nat b + f + 1" if "b < 5" using b' that by simp
        show "mset (take (nat b) bk) + mset (take (nat (i + 1 - f - b)) (md[?m := c ! nat i]))
            + mset (map (\<lambda>j. c ! nat (fIdx ! j)) [0..<nat f]) = mset (take (nat (i + 1)) c)"
          unfolding tm tk using ms by simp
      qed (use bounds room in simp_all)
      with st show ?thesis by blast
    qed
  qed
qed

lemma valid3E:
  assumes "valid3 fIdx"
  obtains a0 a1 a2 where "fIdx = [a0, a1, a2]" "0 \<le> a0" "a0 < a1" "a1 < a2" "a2 \<le> 12"
  using assms by (auto simp: valid3_def split: list.splits)

lemma valid4E:
  assumes "valid4 bIdx"
  obtains p1 p2 p3 p4 where "bIdx = [- 1, p1, p2, p3, p4]" "0 \<le> p1" "p1 < p2" "p2 < p3" "p3 < p4" "p4 \<le> 8"
  using assms by (auto simp: valid4_def split: list.splits)

lemma ints_0_12: "[0, 1, 2, 3, 4, 5, 6, 7, 8, 9, 10, 11, 12] = map int [0..<13]"
  by (simp add: upt_rec)

lemma deal_loop_run:
  assumes "length c = 13" "valid3 fIdx" "valid4 bIdx"
  shows "k \<le> 13 \<Longrightarrow> deal_inv c fIdx bIdx (int k) s \<Longrightarrow>
    \<exists>s'. deal_loop c fIdx bIdx (map int [k..<13]) s = Some s' \<and> deal_inv c fIdx bIdx 13 s'"
proof (induction "13 - k" arbitrary: k s)
  case 0
  then have "k = 13" by simp
  with 0 show ?case by simp
next
  case (Suc n)
  then have k: "k < 13" by simp
  from deal_step_inv [OF Suc.prems(2) _ _ assms] k
  obtain s1 where s1: "deal_step c fIdx bIdx (int k) s = Some s1" "deal_inv c fIdx bIdx (int k + 1) s1"
    by auto
  have "n = 13 - Suc k" using Suc.hyps(2) by simp
  from Suc.hyps(1) [OF this, of s1] k s1(2)
  obtain s' where "deal_loop c fIdx bIdx (map int [Suc k..<13]) s1 = Some s'" "deal_inv c fIdx bIdx 13 s'"
    by (auto simp: add.commute)
  moreover have "[k..<13] = k # [Suc k..<13]" using k by (simp add: upt_rec)
  ultimately show ?case using s1(1) by simp
qed

lemma deal_spec:
  assumes "length c = 13" "valid3 fIdx" "valid4 bIdx"
  shows "\<exists>bk md. deal c fIdx bIdx = Some (bk, md) \<and> length bk = 5 \<and> length md = 5
           \<and> mset (front_of c fIdx) + mset md + mset bk = mset c"
proof -
  have "deal_inv c fIdx bIdx (int 0) (0, 0, replicate 5 0, replicate 5 0)"
  proof -
    from assms(2) obtain a0 a1 a2 where f: "fIdx = [a0, a1, a2]" "0 \<le> a0" by (rule valid3E)
    from assms(3) obtain p1 p2 p3 p4 where b: "bIdx = [- 1, p1, p2, p3, p4]" by (rule valid4E)
    show ?thesis by (simp add: deal_inv_def f b)
  qed
  from deal_loop_run [OF assms _ this]
  obtain s' where s': "deal_loop c fIdx bIdx (map int [0..<13]) (0, 0, replicate 5 0, replicate 5 0) = Some s'"
    "deal_inv c fIdx bIdx 13 s'"
    by auto
  obtain f b bk md where s: "s' = (f, b, bk, md)" by (cases s') auto
  from s'(2) have bounds: "0 \<le> f" "f \<le> 3" "0 \<le> b" "b \<le> 5" "13 - f - b \<le> 5"
      "length bk = 5" "length md = 5"
    and ms: "mset (take (nat b) bk) + mset (take (nat (13 - f - b)) md)
            + mset (map (\<lambda>j. c ! nat (fIdx ! j)) [0..<nat f]) = mset (take (nat 13) c)"
    by (simp_all add: deal_inv_def s)
  from bounds have fb: "f = 3" "b = 5" by linarith+
  have fr: "map (\<lambda>j. c ! nat (fIdx ! j)) [0..<nat 3] = front_of c fIdx"
    by (simp add: front_of_def upt_rec numeral_2_eq_2)
  have "mset (take (nat 5) bk) + mset (take (nat (13 - 3 - 5)) md)
            + mset (front_of c fIdx) = mset (take (nat 13) c)"
    using ms unfolding fb fr .
  then have "mset bk + mset md + mset (front_of c fIdx) = mset c"
    using bounds assms(1) by simp
  moreover have "deal c fIdx bIdx = Some (bk, md)"
    using s'(1) by (simp add: deal_def ints_0_12 s)
  ultimately show ?thesis using bounds by (auto simp: ac_simps)
qed

lemma front_of_distinct:
  assumes "length c = 13" "distinct c" "valid3 fIdx"
  shows "distinct (front_of c fIdx)" "set (front_of c fIdx) \<subseteq> set c" "length (front_of c fIdx) = 3"
proof -
  from assms(3) obtain a0 a1 a2 where ix: "fIdx = [a0, a1, a2]" "0 \<le> a0" "a0 < a1" "a1 < a2" "a2 \<le> 12"
    by (rule valid3E)
  then have "nat a0 < 13" "nat a1 < 13" "nat a2 < 13" "nat a0 \<noteq> nat a1" "nat a0 \<noteq> nat a2" "nat a1 \<noteq> nat a2"
    by auto
  then show "distinct (front_of c fIdx)" "set (front_of c fIdx) \<subseteq> set c"
    using assms(1,2) ix(1) by (auto simp: front_of_def nth_eq_iff_index_eq)
  show "length (front_of c fIdx) = 3" by (simp add: front_of_def)
qed

lemma part_of_distinct:
  assumes "mset a + mset b + mset d = mset c" "distinct c"
  shows "distinct a" "distinct b" "distinct d" "set a \<subseteq> set c" "set b \<subseteq> set c" "set d \<subseteq> set c"
    "set a \<inter> set b = {}" "set a \<inter> set d = {}" "set b \<inter> set d = {}"
proof -
  have e: "mset (a @ b @ d) = mset c" using assms(1) by (simp add: ac_simps)
  from mset_eq_imp_distinct_iff [OF e] assms(2) have d: "distinct (a @ b @ d)"
    by simp
  then show "distinct a" "distinct b" "distinct d" "set a \<inter> set b = {}" "set a \<inter> set d = {}" "set b \<inter> set d = {}"
    by auto
  have "set c = set (a @ b @ d)"
    using mset_eq_setD [OF e] by simp
  then show "set a \<subseteq> set c" "set b \<subseteq> set c" "set d \<subseteq> set c" by auto
qed

lemma index_opt_front:
  assumes "length c = 13" "valid3 fIdx"
  shows "index_opt c (fIdx ! 0) = Some (c ! nat (fIdx ! 0))"
    "index_opt c (fIdx ! 1) = Some (c ! nat (fIdx ! 1))"
    "index_opt c (fIdx ! 2) = Some (c ! nat (fIdx ! 2))"
proof -
  from assms(2) obtain a0 a1 a2 where ix: "fIdx = [a0, a1, a2]" "0 \<le> a0" "a0 < a1" "a1 < a2" "a2 \<le> 12"
    by (rule valid3E)
  then show "index_opt c (fIdx ! 0) = Some (c ! nat (fIdx ! 0))"
    "index_opt c (fIdx ! 1) = Some (c ! nat (fIdx ! 1))"
    "index_opt c (fIdx ! 2) = Some (c ! nat (fIdx ! 2))"
    using assms(1) by (simp_all add: index_opt_def)
qed

lemma evals_on5:
  assumes "evals_on tbl c" "distinct h" "set h \<subseteq> set c" "length h = 5"
  obtains e where "Eval5 tbl h = Some e"
proof -
  from assms have "Eval5 tbl h \<noteq> None" unfolding evals_on_def by blast
  then show ?thesis using that by (cases "Eval5 tbl h") auto
qed

lemma evals_on3:
  assumes "evals_on tbl c" "distinct h" "set h \<subseteq> set c" "length h = 3"
  obtains e where "Eval3 tbl h = Some e"
proof -
  from assms have "Eval3 tbl h \<noteq> None" unfolding evals_on_def by blast
  then show ?thesis using that by (cases "Eval3 tbl h") auto
qed

lemma body4_step:
  assumes "length c = 13" "distinct c" "evals_on tbl c" "valid3 fIdx" "valid4 bIdx"
  shows "body4 prune tbl c evaluator fIdx (front_of c fIdx) (rank3 tbl (front_of c fIdx)) bIdx st
         = Some (step prune tbl c evaluator (fIdx, bIdx) st)"
proof -
  from deal_spec [OF assms(1,4,5)] obtain bk md where d: "deal c fIdx bIdx = Some (bk, md)"
    "length bk = 5" "length md = 5" "mset (front_of c fIdx) + mset md + mset bk = mset c"
    by blast
  note pd = part_of_distinct [OF d(4) assms(2)]
  from evals_on5 [OF assms(3) pd(3) pd(6) d(2)] obtain eb where eb: "Eval5 tbl bk = Some eb" .
  from evals_on5 [OF assms(3) pd(2) pd(5) d(3)] obtain em where em: "Eval5 tbl md = Some em" .
  have "body4 prune tbl c evaluator fIdx (front_of c fIdx) (rank3 tbl (front_of c fIdx)) bIdx st
      = Some (judge prune evaluator (front_of c fIdx) bk md (rank3 tbl (front_of c fIdx)) em eb st)"
    unfolding body4_def d(1) by (simp only: option.case prod.case eb em)
  moreover have "step prune tbl c evaluator (fIdx, bIdx) st
      = judge prune evaluator (front_of c fIdx) bk md (rank3 tbl (front_of c fIdx)) em eb st"
    unfolding step_def prod.case back_of_def middle_of_def rank5_def d(1) by (simp only: option.sel fst_conv snd_conv eb em)
  ultimately show ?thesis by simp
qed

lemma fold_opt_Some:
  assumes "\<And>x s. x \<in> set xs \<Longrightarrow> body x s = Some (g x s)"
  shows "fold_opt body xs s = Some (fold g xs s)"
  using assms by (induction xs arbitrary: s) auto

lemma body3_step:
  assumes "length c = 13" "distinct c" "evals_on tbl c" "valid3 fIdx"
  shows "body3 prune tbl c evaluator fIdx st
         = Some (fold (\<lambda>bIdx. step prune tbl c evaluator (fIdx, bIdx)) backs st)"
proof -
  note fd = front_of_distinct [OF assms(1,2,4)]
  from evals_on3 [OF assms(3) fd] obtain ef where ef: "Eval3 tbl (front_of c fIdx) = Some ef" .
  have "for_next next4 (body4 prune tbl c evaluator fIdx (front_of c fIdx) ef) [- 1, - 1, 1, 2, 3] st
      = fold_opt (body4 prune tbl c evaluator fIdx (front_of c fIdx) ef) backs st"
    by (rule for_next_unroll [OF unroll_backs])
  also have "\<dots> = Some (fold (\<lambda>bIdx. step prune tbl c evaluator (fIdx, bIdx)) backs st)"
  proof (rule fold_opt_Some)
    fix bIdx s assume "bIdx \<in> set backs"
    then have "valid4 bIdx" using backs_valid by (simp add: list_all_iff)
    from body4_step [OF assms(1,2,3,4) this, of prune evaluator s] ef
    show "body4 prune tbl c evaluator fIdx (front_of c fIdx) ef bIdx s
          = Some (step prune tbl c evaluator (fIdx, bIdx) s)"
      by (simp add: rank3_def)
  qed
  finally show ?thesis
    using ef index_opt_front [OF assms(1,4)]
    by (simp add: body3_def front_of_def)
qed

lemma fold_product:
  "fold (\<lambda>x. fold (\<lambda>y. g (x, y)) ys) xs s = fold g (List.product xs ys) s"
proof (induction xs arbitrary: s)
  case Nil
  then show ?case by simp
next
  case (Cons x xs)
  have "fold g (map (Pair x) ys) s = fold (\<lambda>y. g (x, y)) ys s" for s
    by (simp add: fold_map comp_def)
  with Cons show ?case by simp
qed

theorem Play_run_fold:
  assumes "length c = 13" "distinct c" "evals_on tbl c"
  shows "Play_run prune tbl c he = Some (fold (step prune tbl c (he c)) partitions state0)"
proof -
  have "Play_run prune tbl c he = fold_opt (body3 prune tbl c (he c)) fronts state0"
    unfolding Play_run_def by (rule for_next_unroll [OF unroll_fronts])
  also have "\<dots> = Some (fold (\<lambda>fIdx. fold (\<lambda>bIdx. step prune tbl c (he c) (fIdx, bIdx)) backs) fronts state0)"
  proof (rule fold_opt_Some)
    fix fIdx s assume "fIdx \<in> set fronts"
    then have "valid3 fIdx" using fronts_valid by (simp add: list_all_iff)
    from body3_step [OF assms this]
    show "body3 prune tbl c (he c) fIdx s = Some (fold (\<lambda>bIdx. step prune tbl c (he c) (fIdx, bIdx)) backs s)" .
  qed
  finally show ?thesis by (simp add: fold_product partitions_def)
qed

lemma partitions_valid:
  assumes "p \<in> set partitions"
  shows "valid3 (fst p)" "valid4 (snd p)"
  using assms fronts_valid backs_valid by (auto simp: partitions_def list_all_iff)

lemma lanes_ok_partition:
  assumes "length c = 13" "distinct c" "evals_on tbl c" "p \<in> set partitions"
  shows "lanes_ok tbl c (front_of c (fst p)) (back_of c (fst p) (snd p)) (middle_of c (fst p) (snd p))
           (rank3 tbl (front_of c (fst p))) (rank5 tbl (middle_of c (fst p) (snd p)))
           (rank5 tbl (back_of c (fst p) (snd p)))"
proof -
  note v = partitions_valid [OF assms(4)]
  from deal_spec [OF assms(1) v] obtain bk md where d: "deal c (fst p) (snd p) = Some (bk, md)"
    "length bk = 5" "length md = 5" "mset (front_of c (fst p)) + mset md + mset bk = mset c"
    by blast
  note pd = part_of_distinct [OF d(4) assms(2)]
  from evals_on5 [OF assms(3) pd(3) pd(6) d(2)] obtain eb where eb: "Eval5 tbl bk = Some eb" .
  from evals_on5 [OF assms(3) pd(2) pd(5) d(3)] obtain em where em: "Eval5 tbl md = Some em" .
  note fd = front_of_distinct [OF assms(1,2) v(1)]
  from evals_on3 [OF assms(3) fd] obtain ef where ef: "Eval3 tbl (front_of c (fst p)) = Some ef" .
  show ?thesis
    using d eb em ef fd(3)
    by (simp add: lanes_ok_def back_of_def middle_of_def rank3_def rank5_def)
qed



lemma scan_Nil: "scan t 0 [] = (False, [])"
  by (subst scan.simps) simp

lemma legal_hand_lanes:
  assumes "lanes_ok tbl c fr bk md ef em eb" "ef < em" "ef < eb" "em \<noteq> eb"
  shows "legal_hand tbl c (if em > eb then \<lparr>Front = fr, Middle = bk, Back = md\<rparr>
                           else \<lparr>Front = fr, Middle = md, Back = bk\<rparr>)"
  using assms by (auto simp: legal_hand_def lanes_ok_def ac_simps)

lemma score_hand_has_legal:
  assumes "lanes_ok tbl c fr bk md ef em eb" "ef < em" "ef < eb" "em \<noteq> eb"
    and "has_legal tbl c st
         \<or> 0 \<le> Hands (stats st) \<and> bestEV st \<le> (if em > eb then evaluator ef eb em else evaluator ef em eb)"
  shows "has_legal tbl c (score_hand evaluator fr bk md ef em eb st)"
proof -
  note l = legal_hand_lanes [OF assms(1-4)]
  show ?thesis
    using assms(5) l
    by (auto simp: score_hand_def has_legal_def Let_def)
qed

lemma judge_fair:
  assumes "ef < em" "ef < eb" "em \<noteq> eb"
  shows "judge prune evaluator fr bk md ef em eb st =
     (if \<not> prune then score_hand evaluator fr bk md ef em eb st
      else let t = (if em > eb then (ef, eb, em) else (ef, em, eb)); r = scan t 0 (maxima st)
           in if fst r then st\<lparr>maxima := snd r\<rparr>
              else score_hand evaluator fr bk md ef em eb
                     (st\<lparr>maxima := (if length (snd r) < cap_maxima then snd r @ [t] else snd r)\<rparr>))"
  using assms by (auto simp: judge_def Let_def case_prod_beta)

lemma judge_unscored_fouled:
  assumes "unscored st" "ef \<ge> em \<or> ef \<ge> eb \<or> em = eb"
  shows "unscored (judge prune evaluator fr bk md ef em eb st)"
  using assms by (auto simp: judge_def unscored_def)

lemma judge_unscored_fair:
  assumes "unscored st" "\<not> (ef \<ge> em \<or> ef \<ge> eb \<or> em = eb)"
    and "lanes_ok tbl c fr bk md ef em eb" and "\<forall>f m b. sentinel \<le> evaluator f m b"
  shows "has_legal tbl c (judge prune evaluator fr bk md ef em eb st)"
proof -
  from assms(2) have r: "ef < em" "ef < eb" "em \<noteq> eb" by auto
  have b: "bestEV st = sentinel" "maxima st = []" "Hands (stats st) = 0"
    using assms(1) by (simp_all add: unscored_def)
  show ?thesis
  proof (cases prune)
    case False
    have "has_legal tbl c (score_hand evaluator fr bk md ef em eb st)"
      by (rule score_hand_has_legal [OF assms(3) r]) (use assms(4) b in auto)
    then show ?thesis using False r by (simp add: judge_def)
  next
    case True
    let ?t = "if em > eb then (ef, eb, em) else (ef, em, eb)"
    let ?st = "st\<lparr>maxima := [?t]\<rparr>"
    have "has_legal tbl c (score_hand evaluator fr bk md ef em eb ?st)"
      by (rule score_hand_has_legal [OF assms(3) r]) (use assms(4) b in auto)
    moreover have "judge prune evaluator fr bk md ef em eb st = score_hand evaluator fr bk md ef em eb ?st"
      using True r b by (auto simp: judge_def cap_maxima_def scan_Nil)
    ultimately show ?thesis by simp
  qed
qed

lemma judge_has_legal:
  assumes "has_legal tbl c st" "lanes_ok tbl c fr bk md ef em eb"
  shows "has_legal tbl c (judge prune evaluator fr bk md ef em eb st)"
proof (cases "ef \<ge> em \<or> ef \<ge> eb \<or> em = eb")
  case True
  with assms(1) show ?thesis by (auto simp: judge_def has_legal_def)
next
  case False
  then have r: "ef < em" "ef < eb" "em \<noteq> eb" by auto
  have sh: "has_legal tbl c (score_hand evaluator fr bk md ef em eb st')" if "has_legal tbl c st'" for st'
    by (rule score_hand_has_legal [OF assms(2) r]) (use that in simp)
  have mx: "has_legal tbl c (st\<lparr>maxima := m\<rparr>)" for m
    using assms(1) by (simp add: has_legal_def)
  show ?thesis
    unfolding judge_fair [OF r] Let_def
    by (simp add: sh mx assms(1))
qed

lemma fold_two_phase:
  assumes "\<And>x s. x \<in> set xs \<Longrightarrow> A s \<Longrightarrow> trig x \<Longrightarrow> B (g x s)"
    and "\<And>x s. x \<in> set xs \<Longrightarrow> A s \<Longrightarrow> \<not> trig x \<Longrightarrow> A (g x s)"
    and "\<And>x s. x \<in> set xs \<Longrightarrow> B s \<Longrightarrow> B (g x s)"
  shows "A s \<Longrightarrow> (if \<exists>x \<in> set xs. trig x then B (fold g xs s) else A (fold g xs s))"
    and "B s \<Longrightarrow> B (fold g xs s)"
  using assms
proof (induction xs arbitrary: s)
  case Nil
  {
    case 1
    then show ?case by simp
  next
    case 2
    then show ?case by simp
  }
next
  case (Cons x xs)
  {
    case 1
    show ?case
    proof (cases "trig x")
      case True
      with 1 have "B (g x s)" by simp
      then have "B (fold g xs (g x s))"
        by (rule Cons.IH(2)) (use 1 in auto)
      with True show ?thesis by simp
    next
      case False
      with 1 have "A (g x s)" by simp
      then have "if \<exists>x \<in> set xs. trig x then B (fold g xs (g x s)) else A (fold g xs (g x s))"
        by (rule Cons.IH(1)) (use 1 in auto)
      with False show ?thesis by simp
    qed
  next
    case 2
    then have "B (g x s)" by simp
    then have "B (fold g xs (g x s))"
      by (rule Cons.IH(2)) (use 2 in auto)
    then show ?case by simp
  }
qed

lemma state0_unscored: "unscored state0"
  by (simp add: unscored_def state0_def sentinel_def)

lemma step_judge:
  "step prune tbl c evaluator p st =
     judge prune evaluator (front_of c (fst p)) (back_of c (fst p) (snd p)) (middle_of c (fst p) (snd p))
          (rank3 tbl (front_of c (fst p))) (rank5 tbl (middle_of c (fst p) (snd p)))
          (rank5 tbl (back_of c (fst p) (snd p))) st"
  by (simp add: step_def split: prod.splits)

lemma fouled_ranks:
  "fouled tbl c p \<longleftrightarrow>
     rank3 tbl (front_of c (fst p)) \<ge> rank5 tbl (middle_of c (fst p) (snd p))
     \<or> rank3 tbl (front_of c (fst p)) \<ge> rank5 tbl (back_of c (fst p) (snd p))
     \<or> rank5 tbl (middle_of c (fst p) (snd p)) = rank5 tbl (back_of c (fst p) (snd p))"
  by (simp add: fouled_def Let_def split: prod.splits)

subsection \<open>Scorers that stay above the first value of \<^verbatim>\<open>bestEV\<close>\<close>

text \<open>
  For thirteen distinct cards on which the table answers, and a scorer whose scores are
  at least \<open>-9999999.9\<close>, \<^verbatim>\<open>Play\<close> returns. Unless every partition is fouled, the hand
  returned has three, five and five cards, together exactly the thirteen cards, with the
  ranks of front, middle and back strictly rising, and \<^verbatim>\<open>stats.Hands\<close> is positive. If
  every partition is fouled the hand is the zero hand.
\<close>

theorem Play_legal_or_zero:
  assumes "length c = 13" and "distinct c" and "evals_on tbl c"
    and "\<forall>f m b. - 9999999.9 \<le> he c f m b"
  shows "\<exists>h st. Play tbl c he = Some (h, st)
           \<and> (if list_all (fouled tbl c) partitions then h = Hand_zero \<and> Hands st = 0
               else legal_hand tbl c h \<and> Hands st > 0)"
proof -
  let ?g = "step True tbl c (he c)"
  let ?st = "fold ?g partitions state0"
  have run: "Play_run True tbl c he = Some ?st"
    by (rule Play_run_fold [OF assms(1-3)])
  have sc: "\<forall>f m b. sentinel \<le> he c f m b" using assms(4) by (simp add: sentinel_def)
  have "if \<exists>p \<in> set partitions. \<not> fouled tbl c p then has_legal tbl c ?st else unscored ?st"
  proof (rule fold_two_phase(1) [where A = unscored and B = "has_legal tbl c"])
    show "unscored state0" by (rule state0_unscored)
  next
    fix p s assume p: "p \<in> set partitions" and s: "unscored s" and t: "\<not> fouled tbl c p"
    show "has_legal tbl c (?g p s)"
      unfolding step_judge
      by (rule judge_unscored_fair [OF s _ lanes_ok_partition [OF assms(1-3) p] sc])
        (use t in \<open>simp add: fouled_ranks\<close>)
  next
    fix p s assume p: "p \<in> set partitions" and s: "unscored s" and t: "\<not> \<not> fouled tbl c p"
    show "unscored (?g p s)"
      unfolding step_judge
      by (rule judge_unscored_fouled [OF s]) (use t in \<open>simp add: fouled_ranks\<close>)
  next
    fix p s assume p: "p \<in> set partitions" and s: "has_legal tbl c s"
    show "has_legal tbl c (?g p s)"
      unfolding step_judge
      by (rule judge_has_legal [OF s lanes_ok_partition [OF assms(1-3) p]])
  qed
  moreover have "(\<exists>p \<in> set partitions. \<not> fouled tbl c p) \<longleftrightarrow> \<not> list_all (fouled tbl c) partitions"
    by (simp add: list_all_iff)
  ultimately have "if list_all (fouled tbl c) partitions then best ?st = Hand_zero \<and> Hands (stats ?st) = 0
             else legal_hand tbl c (best ?st) \<and> Hands (stats ?st) > 0"
    by (simp add: unscored_def has_legal_def split: if_splits)
  then show ?thesis
    using run by (simp add: Play_def)
qed

lemma score_hand_alt:
  "score_hand evaluator fr bk md ef em eb st =
     (let e = ev3 evaluator (triple_of ef em eb); h = hand_of fr bk md em eb
      in if e \<ge> bestEV st then (noted st h e)\<lparr>bestEV := e, best := h\<rparr> else noted st h e)"
  by (simp add: score_hand_def Let_def ev3_def triple_of_def hand_of_def noted_def)


lemma judge_fouled:
  assumes "ef \<ge> em \<or> ef \<ge> eb \<or> em = eb"
  shows "bestEV (judge prune evaluator fr bk md ef em eb st) = bestEV st"
    "best (judge prune evaluator fr bk md ef em eb st) = best st"
    "maxima (judge prune evaluator fr bk md ef em eb st) = maxima st"
    "scored (judge prune evaluator fr bk md ef em eb st) = scored st"
  using assms by (auto simp: judge_def)







subsection \<open>C7: which of the best hands is returned\<close>







subsection \<open>C3: the filter of dominated triples\<close>


lemma for_next_inv_aux:
  assumes "for_next nxt0 body0 ix0 s0 = Some s'"
  shows "(\<forall>ix s s'. I s \<longrightarrow> body0 ix s = Some s' \<longrightarrow> I s') \<longrightarrow> I s0 \<longrightarrow> I s'"
proof (rule for_next.raw_induct [where P = "\<lambda>nxt body ix s y.
          (\<forall>ix s s'. I s \<longrightarrow> body ix s = Some s' \<longrightarrow> I s') \<longrightarrow> I s \<longrightarrow> I y", OF _ assms])
  fix loop :: "(int list \<Rightarrow> int list \<times> bool) \<Rightarrow> (int list \<Rightarrow> 'a \<Rightarrow> 'a option) \<Rightarrow> int list \<Rightarrow> 'a \<Rightarrow> 'a option"
    and nxt body ix s y
  assume IH: "\<And>nxt body ix s y. loop nxt body ix s = Some y \<Longrightarrow>
          (\<forall>ix s s'. I s \<longrightarrow> body ix s = Some s' \<longrightarrow> I s') \<longrightarrow> I s \<longrightarrow> I y"
    and eq: "(case nxt ix of (ix', ok) \<Rightarrow>
                if ok then Option.bind (body ix' s) (loop nxt body ix') else Some s) = Some y"
  show "(\<forall>ix s s'. I s \<longrightarrow> body ix s = Some s' \<longrightarrow> I s') \<longrightarrow> I s \<longrightarrow> I y"
  proof (intro impI)
    assume pres: "\<forall>ix s s'. I s \<longrightarrow> body ix s = Some s' \<longrightarrow> I s'" and s: "I s"
    obtain ix' ok where nx: "nxt ix = (ix', ok)" by (cases "nxt ix")
    show "I y"
    proof (cases ok)
      case False
      with eq nx s show ?thesis by simp
    next
      case True
      with eq nx obtain s1 where s1: "body ix' s = Some s1" "loop nxt body ix' s1 = Some y"
        by (auto simp: bind_eq_Some_conv)
      from pres s s1(1) have "I s1" by blast
      with IH [OF s1(2)] pres show ?thesis by blast
    qed
  qed
qed

lemma for_next_inv:
  assumes "for_next nxt body ix s = Some s'"
    and "\<And>ix s s'. I s \<Longrightarrow> body ix s = Some s' \<Longrightarrow> I s'" and "I s"
  shows "I s'"
  using for_next_inv_aux [OF assms(1), of I] assms(2,3) by blast

lemma deal_E5_eq: "deal_E5 = [258, 130, 66, 514, 299, 171, 107, 555, 297, 169, 105, 553, 293]"
  by (simp add: deal_E5_def make_card_def primes_def)

lemma deal_E5_cards: "length deal_E5 = 13 \<and> distinct deal_E5 \<and> set deal_E5 \<subseteq> set Cards \<and> 0 \<notin> set deal_E5"
  unfolding deal_E5_eq by (simp add: Cards_def make_card_def primes_def)

lemma judge_untouched:
  assumes "untouched st" "\<forall>f m b. evaluator f m b < sentinel"
  shows "untouched (judge prune evaluator fr bk md ef em eb st)"
proof (cases "ef \<ge> em \<or> ef \<ge> eb \<or> em = eb")
  case True
  from judge_fouled [OF this] assms(1) show ?thesis by (simp add: untouched_def)
next
  case False
  then have r: "ef < em" "ef < eb" "em \<noteq> eb" by auto
  have m: "untouched (st'\<lparr>maxima := mx\<rparr>) = untouched st'" for st' mx
    by (simp add: untouched_def)
  have n: "\<not> sentinel \<le> evaluator f m b" for f m b
    using assms(2) by (simp add: not_le)
  have s: "untouched (score_hand evaluator fr bk md ef em eb st')" if "untouched st'" for st'
    using that by (simp add: score_hand_alt Let_def untouched_def noted_def ev3_def n split: prod.splits)
  show ?thesis
    unfolding judge_fair [OF r] Let_def by (simp add: m s assms(1))
qed

lemma Play_run_untouched:
  assumes "Play_run prune tbl c he = Some st" and "\<forall>f m b. he c f m b < sentinel"
  shows "best st = Hand_zero"
proof -
  have b4: "untouched s'" if u: "untouched s" and e: "body4 prune tbl c (he c) fIdx fr ef bIdx s = Some s'"
    for s s' fIdx fr ef bIdx
  proof -
    from e have "\<exists>bk md em eb. s' = judge prune (he c) fr bk md ef em eb s"
      unfolding body4_def by (simp split: option.splits prod.splits) blast
    then obtain bk md em eb where "s' = judge prune (he c) fr bk md ef em eb s" by blast
    then show ?thesis using judge_untouched [OF u assms(2)] by simp
  qed
  have b3: "untouched s'" if u: "untouched s" and e: "body3 prune tbl c (he c) fIdx s = Some s'" for s s' fIdx
  proof -
    from e have "\<exists>fr ef. for_next next4 (body4 prune tbl c (he c) fIdx fr ef) [- 1, - 1, 1, 2, 3] s = Some s'"
      unfolding body3_def by (simp split: option.splits) blast
    then obtain fr ef where
      "for_next next4 (body4 prune tbl c (he c) fIdx fr ef) [- 1, - 1, 1, 2, 3] s = Some s'" by blast
    then show ?thesis
    proof (rule for_next_inv)
      show "untouched s" by (rule u)
    qed (rule b4)
  qed
  have s0: "untouched state0" by (simp add: untouched_def state0_def sentinel_def)
  have "untouched st"
    using assms(1) unfolding Play_run_def
  proof (rule for_next_inv)
    show "untouched state0" by (rule s0)
  qed (rule b3)
  then show ?thesis by (simp add: untouched_def)
qed

subsection \<open>C1: the hand returned is a legal partition of the deal\<close>

text \<open>
  C1 at an input where it fails. The deal is the one of the specification's example,
  thirteen distinct cards of the deck; the scorer gives \<open>-10000000\<close> to every hand. Whatever
  the table of ranks, if \<^verbatim>\<open>Play\<close> returns then it returns the zero \<^verbatim>\<open>Hand{}\<close>, whose cards
  are not the cards dealt: no score reaches the \<open>-9999999.9\<close> that \<^verbatim>\<open>bestEV\<close> starts with.
\<close>

theorem Play_below_initial_best:
  "length deal_E5 = 13 \<and> distinct deal_E5 \<and> set deal_E5 \<subseteq> set Cards
   \<and> \<not> (\<exists>tbl h st. Play tbl deal_E5 low_scorer = Some (h, st)
            \<and> mset (Front h) + mset (Middle h) + mset (Back h) = mset deal_E5)"
proof -
  have "mset (Front h) + mset (Middle h) + mset (Back h) \<noteq> mset deal_E5"
    if "Play tbl deal_E5 low_scorer = Some (h, st)" for tbl h st
  proof -
    from that obtain s where s: "Play_run True tbl deal_E5 low_scorer = Some s" "h = best s"
      by (auto simp: Play_def)
    have "\<forall>f m b. low_scorer deal_E5 f m b < sentinel"
      by (simp add: low_scorer_def sentinel_def)
    from Play_run_untouched [OF s(1) this] s(2) have h: "h = Hand_zero" by simp
    have "0 \<in># mset (Front h) + mset (Middle h) + mset (Back h)"
      by (simp add: h Hand_zero_def)
    moreover have "0 \<notin># mset deal_E5" using deal_E5_cards by simp
    ultimately show ?thesis by metis
  qed
  then show ?thesis using deal_E5_cards by blast
qed

lemma probe_toy:
  assumes "ky < 2 ^ 15"
  shows "probe (toy_table g) ky ky = Some (g (unat ky))"
proof -
  have "ky AND evalMask = ky"
    using less_mask_eq [OF assms] by (simp add: evalMask_def mask_eq_exp_minus_1)
  then show ?thesis
    by (subst probe.simps) (simp add: toy_table_def)
qed

lemma unat_weight: "unat (ucast (x AND 0x3f) :: 32 word) = weight x"
proof -
  have "unat (x AND 0x3f) < 2 ^ 16" by (rule order_less_le_trans [OF unsigned_less]) simp
  then have "unat (x AND 0x3f) < 2 ^ 32" by simp
  then show ?thesis by (simp add: weight_def unsigned_ucast_eq take_bit_nat_eq_self)
qed

lemma unat_mult_bound:
  fixes a b :: "32 word"
  assumes "unat a \<le> m" "unat b \<le> n" "m * n < 2 ^ 32"
  shows "unat (a * b) = unat a * unat b" "unat (a * b) \<le> m * n"
proof -
  have le: "unat a * unat b \<le> m * n" using assms(1,2) by (rule mult_le_mono)
  with assms(3) have "unat a * unat b < 2 ^ LENGTH(32)" by simp
  then show "unat (a * b) = unat a * unat b" by (rule unat_mult_lem [THEN iffD1])
  with le show "unat (a * b) \<le> m * n" by simp
qed

lemma Eval3_toy:
  assumes "weight a \<le> 7" "weight b \<le> 7" "weight c \<le> 7"
  shows "Eval3 (toy_table g) [a, b, c] = Some (g (weight a * weight b * weight c))"
proof -
  define A B C :: "32 word" where "A = ucast (a AND 0x3f)" and "B = ucast (b AND 0x3f)" and "C = ucast (c AND 0x3f)"
  have u: "unat A = weight a" "unat B = weight b" "unat C = weight c"
    by (simp_all add: A_def B_def C_def unat_weight)
  have ab: "unat (A * B) = weight a * weight b" "unat (A * B) \<le> 7 * 7"
    using unat_mult_bound [of A 7 B 7] assms u by simp_all
  have abc: "unat (A * B * C) = weight a * weight b * weight c" "unat (A * B * C) \<le> 7 * 7 * 7"
    using unat_mult_bound [of "A * B" "7 * 7" C 7] assms u ab by simp_all
  have "A * B * C < 2 ^ 15" using abc(2) by (simp add: word_less_nat_alt)
  from probe_toy [OF this, of g] have "probe (toy_table g) (A * B * C) (A * B * C)
      = Some (g (weight a * weight b * weight c))"
    by (simp only: abc(1))
  then show ?thesis by (simp add: A_def B_def C_def)
qed

lemma Eval5_toy:
  assumes "weight a \<le> 7" "weight b \<le> 7" "weight c \<le> 7" "weight d \<le> 7" "weight e \<le> 7"
    and "a AND b AND c AND d AND e AND 0x3c0 = 0"
  shows "Eval5 (toy_table g) [a, b, c, d, e]
         = Some (g (weight a * weight b * weight c * weight d * weight e))"
proof -
  define A B C D E :: "32 word" where "A = ucast (a AND 0x3f)" and "B = ucast (b AND 0x3f)"
    and "C = ucast (c AND 0x3f)" and "D = ucast (d AND 0x3f)" and "E = ucast (e AND 0x3f)"
  have u: "unat A = weight a" "unat B = weight b" "unat C = weight c" "unat D = weight d" "unat E = weight e"
    by (simp_all add: A_def B_def C_def D_def E_def unat_weight)
  have ab: "unat (A * B) = weight a * weight b" "unat (A * B) \<le> 7 * 7"
    using unat_mult_bound [of A 7 B 7] assms u by simp_all
  have abc: "unat (A * B * C) = weight a * weight b * weight c" "unat (A * B * C) \<le> 7 * 7 * 7"
    using unat_mult_bound [of "A * B" "7 * 7" C 7] assms u ab by simp_all
  have abcd: "unat (A * B * C * D) = weight a * weight b * weight c * weight d"
    "unat (A * B * C * D) \<le> 7 * 7 * 7 * 7"
    using unat_mult_bound [of "A * B * C" "7 * 7 * 7" D 7] assms u abc by simp_all
  have abcde: "unat (A * B * C * D * E) = weight a * weight b * weight c * weight d * weight e"
    "unat (A * B * C * D * E) \<le> 7 * 7 * 7 * 7 * 7"
    using unat_mult_bound [of "A * B * C * D" "7 * 7 * 7 * 7" E 7] assms u abcd by simp_all
  have "A * B * C * D * E < 2 ^ 15" using abcde(2) by (simp add: word_less_nat_alt)
  from probe_toy [OF this, of g] have "probe (toy_table g) (A * B * C * D * E) (A * B * C * D * E)
      = Some (g (weight a * weight b * weight c * weight d * weight e))"
    by (simp only: abcde(1))
  then show ?thesis by (simp add: assms(6) A_def B_def C_def D_def E_def)
qed

lemma nonzero_bit: "(x :: 16 word) \<noteq> 0 \<Longrightarrow> \<exists>n. bit x n"
  by (auto simp: bit_eq_iff)

lemma suit_bits: "bit (0x3c0 :: 16 word) n \<Longrightarrow> n = 6 \<or> n = 7 \<or> n = 8 \<or> n = 9"
proof -
  assume b: "bit (0x3c0 :: 16 word) n"
  have "(0x3c0 :: 16 word) = push_bit 6 (mask 4)" by (simp add: mask_eq_exp_minus_1)
  with b have "bit (push_bit 6 (mask 4) :: 16 word) n" by simp
  then have "6 \<le> n \<and> n - 6 < 4" by (auto simp: bit_push_bit_iff bit_mask_iff)
  then show ?thesis by arith
qed

lemma low_cards_no_flush:
  assumes "low_cards cs" "distinct [a, b, c, d, e]" "set [a, b, c, d, e] \<subseteq> set cs"
  shows "a AND b AND c AND d AND e AND 0x3c0 = 0"
proof (rule ccontr)
  assume "a AND b AND c AND d AND e AND 0x3c0 \<noteq> 0"
  then obtain n where "bit (a AND b AND c AND d AND e AND 0x3c0) n" using nonzero_bit by blast
  then have b: "bit a n" "bit b n" "bit c n" "bit d n" "bit e n" and s: "bit (0x3c0 :: 16 word) n"
    by (simp_all add: bit_and_iff)
  from b assms(3) have sub: "set [a, b, c, d, e] \<subseteq> set (filter (\<lambda>x. bit x n) cs)" by auto
  have "card (set [a, b, c, d, e]) = 5" using assms(2) by (simp only: distinct_card) simp
  moreover have "length (filter (\<lambda>x. bit x n) cs) \<le> 4"
    using suit_bits [OF s] assms(1) by (auto simp: low_cards_def)
  then have "card (set (filter (\<lambda>x. bit x n) cs)) \<le> 4"
    using card_length [of "filter (\<lambda>x. bit x n) cs"] by linarith
  ultimately show False using card_mono [OF _ sub] by simp
qed

lemma low_cards_weight: "low_cards cs \<Longrightarrow> x \<in> set cs \<Longrightarrow> weight x \<le> 7"
  by (simp add: low_cards_def list_all_iff)

lemma low_cards_Eval3:
  assumes "low_cards cs" "length h = 3" "set h \<subseteq> set cs"
  shows "Eval3 (toy_table g) h = Some (g (prod_list (map weight h)))"
proof -
  from assms(2) obtain a b c where h: "h = [a, b, c]"
    by (cases h; cases "tl h"; cases "tl (tl h)"; cases "tl (tl (tl h))") auto
  with assms(3) have "a \<in> set cs" "b \<in> set cs" "c \<in> set cs" by auto
  then have "weight a \<le> 7" "weight b \<le> 7" "weight c \<le> 7"
    using low_cards_weight [OF assms(1)] by blast+
  from Eval3_toy [OF this, of g] show ?thesis by (simp add: h mult.assoc)
qed

lemma low_cards_Eval5:
  assumes "low_cards cs" "length h = 5" "set h \<subseteq> set cs" "distinct h"
  shows "Eval5 (toy_table g) h = Some (g (prod_list (map weight h)))"
proof -
  from assms(2) obtain a b c d e where h: "h = [a, b, c, d, e]"
    by (cases h; cases "tl h"; cases "tl (tl h)"; cases "tl (tl (tl h))"; cases "tl (tl (tl (tl h)))";
        cases "tl (tl (tl (tl (tl h))))") auto
  with assms(3) have "a \<in> set cs" "b \<in> set cs" "c \<in> set cs" "d \<in> set cs" "e \<in> set cs" by auto
  then have w: "weight a \<le> 7" "weight b \<le> 7" "weight c \<le> 7" "weight d \<le> 7" "weight e \<le> 7"
    using low_cards_weight [OF assms(1)] by blast+
  have "a AND b AND c AND d AND e AND 0x3c0 = 0"
    using low_cards_no_flush [OF assms(1)] assms(3,4) unfolding h by blast
  from Eval5_toy [OF w this, of g] show ?thesis by (simp add: h mult.assoc)
qed

lemma low_cards_evals_on: "low_cards cs \<Longrightarrow> evals_on (toy_table g) cs"
  unfolding evals_on_def using low_cards_Eval3 low_cards_Eval5 by (metis option.distinct(1))

lemma deal_low_eq: "deal_low = [66, 130, 258, 514, 67, 131, 259, 515, 69, 133, 261, 517, 71]"
  by (simp add: deal_low_def make_card_def primes_def)

lemma deal_low_13: "length deal_low = 13" "distinct deal_low"
  unfolding deal_low_eq by simp_all

lemma deal_low_in_deck: "set deal_low \<subseteq> set Cards"
  unfolding deal_low_eq by (simp add: Cards_def make_card_def primes_def)

lemma deal_low_low: "low_cards deal_low"
  unfolding deal_low_eq low_cards_def weight_def by code_simp

lemma deal_low_evals: "evals_on (toy_table g) deal_low"
  by (rule low_cards_evals_on [OF deal_low_low])

lemma zero_scorer_bound: "\<forall>f m b. - 9999999.9 \<le> zero_scorer deal_low f m b"
  by (simp add: zero_scorer_def)

theorem Play_legal_or_zero_witness:
  "length deal_low = 13 \<and> distinct deal_low \<and> evals_on (toy_table tie_ranks) deal_low
   \<and> (\<forall>f m b. - 9999999.9 \<le> zero_scorer deal_low f m b)
   \<and> (\<exists>h st. Play (toy_table tie_ranks) deal_low zero_scorer = Some (h, st)
           \<and> (if list_all (fouled (toy_table tie_ranks) deal_low) partitions
               then h = Hand_zero \<and> Hands st = 0
               else legal_hand (toy_table tie_ranks) deal_low h \<and> Hands st > 0))"
  using Play_legal_or_zero [of deal_low "toy_table tie_ranks" zero_scorer]
    deal_low_13 zero_scorer_bound deal_low_evals [of tie_ranks] zero_scorer_bound
  by simp

































section \<open>Scorer files\<close>

subsection \<open>Rounding to a \<^verbatim>\<open>float64\<close>\<close>

lemma pow2_powr: "pow2 e = 2 powr (real_of_int e)"
proof (cases "0 \<le> e")
  case True
  then show ?thesis by (simp add: pow2_def powr_realpow [symmetric])
next
  case False
  then have "2 powr (real_of_int e) = 1 / 2 powr (real_of_int (- e))"
    by (simp add: powr_minus_divide)
  also have "\<dots> = 1 / 2 ^ nat (- e)" using False by (simp add: powr_realpow [symmetric])
  finally show ?thesis using False by (simp add: pow2_def)
qed

lemma pow2_pos [simp]: "0 < pow2 e"
  by (simp add: pow2_powr)

lemma pow2_add: "pow2 (a + b) = pow2 a * pow2 b"
  by (simp add: pow2_powr powr_add)

lemma pow2_mono: "a \<le> b \<Longrightarrow> pow2 a \<le> pow2 b"
  by (simp add: pow2_powr)

lemma pow2_nat: "0 \<le> e \<Longrightarrow> pow2 e = real_of_int (2 ^ nat e)"
  by (simp add: pow2_def)

lemma expo_from_stop: "e \<le> - 1022 \<or> pow2 e \<le> \<bar>x\<bar> \<Longrightarrow> expo_from x e = e"
  by (subst expo_from.simps) simp

lemma expo_from_down: "\<not> (e \<le> - 1022 \<or> pow2 e \<le> \<bar>x\<bar>) \<Longrightarrow> expo_from x e = expo_from x (e - 1)"
  by (subst expo_from.simps) simp

lemma expo_from_range: "- 1022 \<le> e \<Longrightarrow> - 1022 \<le> expo_from x e \<and> expo_from x e \<le> e"
proof (induction x e rule: expo_from.induct)
  case (1 x e)
  show ?case
  proof (cases "e \<le> - 1022 \<or> pow2 e \<le> \<bar>x\<bar>")
    case True
    then show ?thesis using 1(2) by (simp add: expo_from_stop)
  next
    case False
    with 1 show ?thesis by (simp add: expo_from_down)
  qed
qed

lemma expo_from_low: "- 1022 \<le> e \<Longrightarrow> expo_from x e = - 1022 \<or> pow2 (expo_from x e) \<le> \<bar>x\<bar>"
proof (induction x e rule: expo_from.induct)
  case (1 x e)
  show ?case
  proof (cases "e \<le> - 1022 \<or> pow2 e \<le> \<bar>x\<bar>")
    case True
    then show ?thesis using 1(2) by (auto simp: expo_from_stop)
  next
    case False
    with 1 show ?thesis by (simp add: expo_from_down)
  qed
qed

lemma expo_from_high: "expo_from x e = e \<or> \<bar>x\<bar> < pow2 (expo_from x e + 1)"
proof (induction x e rule: expo_from.induct)
  case (1 x e)
  show ?case
  proof (cases "e \<le> - 1022 \<or> pow2 e \<le> \<bar>x\<bar>")
    case True
    then show ?thesis by (simp add: expo_from_stop)
  next
    case False
    then have e: "expo_from x e = expo_from x (e - 1)" by (rule expo_from_down)
    from False have lt: "\<bar>x\<bar> < pow2 e" by simp
    from 1 [OF False] show ?thesis
    proof
      assume "expo_from x (e - 1) = e - 1"
      with e lt show ?thesis by simp
    next
      assume "\<bar>x\<bar> < pow2 (expo_from x (e - 1) + 1)"
      with e show ?thesis by simp
    qed
  qed
qed

lemma float64_expo_range: "- 1022 \<le> float64_expo x" "float64_expo x \<le> 1023"
  using expo_from_range [of 1023 x] by (simp_all add: float64_expo_def)

lemma float64_expo_low: "- 1022 < float64_expo x \<Longrightarrow> pow2 (float64_expo x) \<le> \<bar>x\<bar>"
  using expo_from_low [of 1023 x] by (auto simp: float64_expo_def)

lemma float64_expo_high: "float64_expo x < 1023 \<Longrightarrow> \<bar>x\<bar> < pow2 (float64_expo x + 1)"
  using expo_from_high [of x 1023] by (auto simp: float64_expo_def)

lemma round_even_cases:
  "round_even r = \<lfloor>r\<rfloor> \<and> r - real_of_int \<lfloor>r\<rfloor> \<le> 1 / 2
   \<or> round_even r = \<lfloor>r\<rfloor> + 1 \<and> 1 / 2 \<le> r - real_of_int \<lfloor>r\<rfloor>"
  by (auto simp: round_even_def Let_def)

lemma round_even_nearest: "\<bar>real_of_int (round_even r) - r\<bar> \<le> \<bar>real_of_int n - r\<bar>"
proof -
  have fl: "real_of_int \<lfloor>r\<rfloor> \<le> r" "r < real_of_int \<lfloor>r\<rfloor> + 1" by linarith+
  consider "n \<le> \<lfloor>r\<rfloor>" | "\<lfloor>r\<rfloor> + 1 \<le> n" by linarith
  then show ?thesis
  proof cases
    case 1
    then have "real_of_int n \<le> real_of_int \<lfloor>r\<rfloor>" by simp
    with fl round_even_cases [of r] show ?thesis by auto
  next
    case 2
    then have "real_of_int \<lfloor>r\<rfloor> + 1 \<le> real_of_int n" by linarith
    with fl round_even_cases [of r] show ?thesis by auto
  qed
qed

lemma round_even_half: "\<bar>real_of_int (round_even r) - r\<bar> \<le> 1 / 2"
  using round_even_cases [of r] by (auto simp: abs_le_iff)

text \<open>
  The value read is at least as near to the decimal as any \<^verbatim>\<open>float64\<close> is; here for
  the values that are not negative.
\<close>

lemma float64_grid: "\<bar>float64 d - d\<bar> \<le> \<bar>real_of_int n * pow2 (float64_expo d - 52) - d\<bar>"
proof -
  define u where "u = pow2 (float64_expo d - 52)"
  have u: "0 < u" by (simp add: u_def)
  have "\<bar>float64 d - d\<bar> = \<bar>(real_of_int (round_even (d / u)) - d / u) * u\<bar>"
    using u by (simp add: float64_def Let_def u_def [symmetric] algebra_simps)
  also have "\<dots> = \<bar>real_of_int (round_even (d / u)) - d / u\<bar> * u"
    using u by (simp add: abs_mult)
  also have "\<dots> \<le> \<bar>real_of_int n - d / u\<bar> * u"
    using round_even_nearest [of "d / u" n] u by (simp add: mult_right_mono)
  also have "\<dots> = \<bar>(real_of_int n - d / u) * u\<bar>"
    using u by (simp add: abs_mult)
  also have "\<dots> = \<bar>real_of_int n * u - d\<bar>"
    using u by (simp add: algebra_simps)
  finally show ?thesis by (simp add: u_def)
qed

lemma float64_multiple:
  assumes "float64 x = x" "e \<le> float64_expo x"
  shows "\<exists>n. x = real_of_int n * pow2 (e - 52)"
proof -
  define m where "m = round_even (x / pow2 (float64_expo x - 52))"
  have x: "x = real_of_int m * pow2 (float64_expo x - 52)"
    using assms(1) by (simp add: float64_def Let_def m_def)
  have "pow2 (float64_expo x - 52) = pow2 (float64_expo x - e) * pow2 (e - 52)"
    using pow2_add [of "float64_expo x - e" "e - 52"] by simp
  also have "pow2 (float64_expo x - e) = real_of_int (2 ^ nat (float64_expo x - e))"
    using assms(2) by (simp add: pow2_nat)
  finally have "x = real_of_int (m * 2 ^ nat (float64_expo x - e)) * pow2 (e - 52)"
    using x by simp
  then show ?thesis by blast
qed

lemma float64_nearest:
  assumes "0 \<le> x" "0 \<le> d" "float64 x = x"
  shows "\<bar>float64 d - d\<bar> \<le> \<bar>x - d\<bar>"
proof (cases "float64_expo d \<le> float64_expo x")
  case True
  from float64_multiple [OF assms(3) True] obtain n
    where "x = real_of_int n * pow2 (float64_expo d - 52)" by blast
  with float64_grid [of d n] show ?thesis by simp
next
  case False
  then have lt: "float64_expo x < float64_expo d" by simp
  with float64_expo_range(2) [of d] have "float64_expo x < 1023" by linarith
  from float64_expo_high [OF this] assms(1) have "x < pow2 (float64_expo x + 1)" by simp
  also have "\<dots> \<le> pow2 (float64_expo d)" using lt by (simp add: pow2_mono)
  finally have xe: "x < pow2 (float64_expo d)" .
  from lt float64_expo_range(1) [of x] have "- 1022 < float64_expo d" by linarith
  from float64_expo_low [OF this] assms(2) have ed: "pow2 (float64_expo d) \<le> d" by simp
  have "real_of_int (2 ^ 52) * pow2 (float64_expo d - 52) = pow2 52 * pow2 (float64_expo d - 52)"
    by (simp add: pow2_def)
  also have "\<dots> = pow2 (float64_expo d)"
    using pow2_add [of 52 "float64_expo d - 52"] by simp
  finally have "\<bar>float64 d - d\<bar> \<le> \<bar>pow2 (float64_expo d) - d\<bar>"
    using float64_grid [of d "2 ^ 52"] by simp
  with xe ed show ?thesis by simp
qed

lemma float64_expo_eq:
  assumes "- 1022 \<le> e" "e \<le> 1023" "pow2 e \<le> \<bar>x\<bar>" "\<bar>x\<bar> < pow2 (e + 1)"
  shows "float64_expo x = e"
proof (rule ccontr)
  assume ne: "float64_expo x \<noteq> e"
  show False
  proof (cases "e < float64_expo x")
    case True
    with assms(1) have "- 1022 < float64_expo x" by simp
    from float64_expo_low [OF this] assms(4) have "pow2 (float64_expo x) < pow2 (e + 1)" by simp
    moreover from True have "pow2 (e + 1) \<le> pow2 (float64_expo x)" by (simp add: pow2_mono)
    ultimately show False by simp
  next
    case False
    with ne have lt: "float64_expo x < e" by simp
    with assms(2) have "float64_expo x < 1023" by simp
    from float64_expo_high [OF this] assms(3) have "pow2 e < pow2 (float64_expo x + 1)" by simp
    moreover from lt have "pow2 (float64_expo x + 1) \<le> pow2 e" by (simp add: pow2_mono)
    ultimately show False by simp
  qed
qed

lemma float64_expo_0: "float64_expo 0 = - 1022"
proof (rule ccontr)
  assume "float64_expo 0 \<noteq> - 1022"
  with float64_expo_range(1) [of 0] have "- 1022 < float64_expo 0" by simp
  from float64_expo_low [OF this] show False using pow2_pos [of "float64_expo 0"] by simp
qed

lemma float64_0: "float64 0 = 0"
  by (simp add: float64_def round_even_def)

lemma float64_half: "float64 (1 / 2) = 1 / 2"
proof -
  have "float64_expo (1 / 2) = - 1" by (rule float64_expo_eq) (simp_all add: pow2_def)
  then show ?thesis by (simp add: float64_def pow2_def round_even_def)
qed

lemma float64_128th: "float64 (1 / 128) = 1 / 128"
proof -
  have "float64_expo (1 / 128) = - 7" by (rule float64_expo_eq) (simp_all add: pow2_def)
  then show ?thesis by (simp add: float64_def pow2_def round_even_def)
qed

lemma float64_1: "float64 1 = 1"
proof -
  have "float64_expo 1 = 0" by (rule float64_expo_eq) (simp_all add: pow2_def)
  then show ?thesis by (simp add: float64_def pow2_def round_even_def)
qed

subsection \<open>Reading lanes\<close>

lemma fmt_f_close: "\<bar>real_of_int (fmt_f x) / 1000000 - x\<bar> \<le> 5 / 10 ^ 7"
proof -
  have "\<bar>real_of_int (fmt_f x) - x * 1000000\<bar> \<le> 1 / 2"
    unfolding fmt_f_def by (rule round_even_half)
  then show ?thesis by (simp add: field_simps abs_le_iff)
qed

lemma round_even_nonneg: "0 \<le> r \<Longrightarrow> 0 \<le> round_even r"
  using round_even_cases [of r] by auto

lemma prob64_loaded:
  assumes "prob64 x"
  shows "close6 x (loaded (fmt_f x))" "readable (fmt_f x)"
proof -
  define d where "d = real_of_int (fmt_f x) / 1000000"
  from assms have x: "0 \<le> x" "x \<le> 1" "float64 x = x" by (simp_all add: prob64_def)
  have d0: "0 \<le> d" using round_even_nonneg [of "x * 1000000"] x(1) by (simp add: d_def fmt_f_def)
  have dx: "\<bar>d - x\<bar> \<le> 5 / 10 ^ 7" unfolding d_def by (rule fmt_f_close)
  from float64_nearest [OF x(1) d0 x(3)] have n: "\<bar>float64 d - d\<bar> \<le> \<bar>x - d\<bar>" .
  from dx have dx': "\<bar>d - x\<bar> \<le> 1 / 2000000" by simp
  from n dx' have "\<bar>float64 d - x\<bar> \<le> 1 / 1000000" by linarith
  then show "close6 x (loaded (fmt_f x))"
    by (simp add: close6_def loaded_def d_def [symmetric])
  have "(2::real) \<le> pow2 1024" using pow2_mono [of 1 1024] by (simp add: pow2_def)
  moreover from n dx' x have "\<bar>float64 d\<bar> < 2" by linarith
  ultimately show "readable (fmt_f x)"
    by (simp add: readable_def loaded_def d_def [symmetric])
qed

lemma parse_float_readable:
  "readable k \<Longrightarrow> parse_float (real_of_int k / 1000000) ts = Inr (loaded k, ts)"
  by (simp add: parse_float_def readable_def loaded_def)

lemma read_floats_all:
  "list_all readable ks \<Longrightarrow> read_floats (length ks) (map FloatTok ks @ rest) = Inr (map loaded ks, rest)"
  by (induction ks) (simp_all add: parse_float_readable)



lemma read_lane_all:
  assumes "list_all readable ks" "fits room ks"
  shows "read_lane room unread (lane_file ks @ rest) = Ok (map loaded ks, rest)"
  using assms by (simp add: read_lane_def lane_file_def read_floats_all fits_def)







lemma Unmarshal_well_formed:
  assumes "list_all readable k0" "list_all readable k1" "list_all readable k2"
    and "fits room k0" "fits room k1" "fits room k2"
  shows "UnmarshalSampledEvaluator room unread (file_tokens k0 k1 k2 @ rest)
         = Ok \<lparr>se_wins = (map loaded k0, map loaded k1, map loaded k2)\<rparr>"
  using assms by (simp add: UnmarshalSampledEvaluator_def file_tokens_def read_lane_all)





lemma fmt_f_tie: "fmt_f (1 / 128) = 7812"
  by (simp add: fmt_f_def round_even_def)

subsection \<open>C10: errors, the panics and the lengths read\<close>




subsection \<open>C6: saving and loading again\<close>

lemma Marshal_file:
  "Marshal \<lparr>se_wins = (w0, w1, w2)\<rparr> = file_tokens (map fmt_f w0) (map fmt_f w1) (map fmt_f w2)"
  by (simp add: Marshal_def file_tokens_def lane_tokens_def lane_file_def comp_def)

lemma prob64_lane:
  assumes "list_all prob64 xs"
  shows "list_all readable (map fmt_f xs)" "list_all2 close6 xs (map loaded (map fmt_f xs))"
  using assms by (induction xs) (simp_all add: prob64_loaded)

text \<open>
  C6. For a scorer whose entries are probabilities held in \<^verbatim>\<open>float64\<close>s (and whose
  arrays are of a length that can be written, read and allocated again), loading what
  was saved gives a scorer with arrays of the same three lengths, each entry equal to the
  entry saved to six decimal places: at most \<open>10\<^sup>-\<^sup>6\<close> from it. Half of that is the rounding
  of \<^verbatim>\<open>%f\<close>; the rest covers the rounding of the decimal to a \<^verbatim>\<open>float64\<close> when it is read.
\<close>

theorem Marshal_Unmarshal_round_trip:
  assumes "list_all prob64 (w0 @ w1 @ w2)" and "fits room w0" and "fits room w1" and "fits room w2"
  shows "\<exists>w0' w1' w2'. UnmarshalSampledEvaluator room unread (Marshal \<lparr>se_wins = (w0, w1, w2)\<rparr>)
                          = Ok \<lparr>se_wins = (w0', w1', w2')\<rparr>
     \<and> length w0' = length w0 \<and> length w1' = length w1 \<and> length w2' = length w2
     \<and> list_all2 close6 w0 w0' \<and> list_all2 close6 w1 w1' \<and> list_all2 close6 w2 w2'"
proof -
  from assms(1) have p: "list_all prob64 w0" "list_all prob64 w1" "list_all prob64 w2" by simp_all
  note r = prob64_lane(1) [OF p(1)] prob64_lane(1) [OF p(2)] prob64_lane(1) [OF p(3)]
  have f: "fits room (map fmt_f w0)" "fits room (map fmt_f w1)" "fits room (map fmt_f w2)"
    using assms(2-4) by (simp_all add: fits_def)
  have "UnmarshalSampledEvaluator room unread (Marshal \<lparr>se_wins = (w0, w1, w2)\<rparr>)
      = Ok \<lparr>se_wins = (map loaded (map fmt_f w0), map loaded (map fmt_f w1), map loaded (map fmt_f w2))\<rparr>"
    using Unmarshal_well_formed [OF r f, of unread "[]"] by (simp add: Marshal_file)
  then show ?thesis
    using prob64_lane(2) [OF p(1)] prob64_lane(2) [OF p(2)] prob64_lane(2) [OF p(3)] by simp
qed

lemma prob64_examples: "list_all prob64 ([0, 1 / 2, 1 / 128] @ [1] @ [])"
  by (simp add: prob64_def float64_0 float64_half float64_128th float64_1)

theorem Marshal_Unmarshal_round_trip_witness:
  "list_all prob64 ([0, 1 / 2, 1 / 128] @ [1] @ [])
   \<and> fits (2 ^ 45) [0, 1 / 2, 1 / 128 :: real] \<and> fits (2 ^ 45) [1 :: real] \<and> fits (2 ^ 45) ([] :: real list)
   \<and> (\<exists>w0' w1' w2'. UnmarshalSampledEvaluator (2 ^ 45) False
                        (Marshal \<lparr>se_wins = ([0, 1 / 2, 1 / 128], [1], [])\<rparr>)
                          = Ok \<lparr>se_wins = (w0', w1', w2')\<rparr>
     \<and> length w0' = length [0, 1 / 2, 1 / 128 :: real] \<and> length w1' = length [1 :: real]
     \<and> length w2' = length ([] :: real list)
     \<and> list_all2 close6 [0, 1 / 2, 1 / 128] w0' \<and> list_all2 close6 [1] w1'
     \<and> list_all2 close6 [] w2')"
proof -
  have f: "fits (2 ^ 45) [0, 1 / 2, 1 / 128 :: real]" "fits (2 ^ 45) [1 :: real]"
    "fits (2 ^ 45) ([] :: real list)"
    by (simp_all add: fits_def in_int_def)
  from Marshal_Unmarshal_round_trip [OF prob64_examples f, of False] prob64_examples f
  show ?thesis by blast
qed

end
